theory Spec2Isabelle
  imports Main "HOL-Library.Sublist" "HOL-Library.Char_ord" "HOL-Library.List_Lexorder"
    "HOL-Library.AList" "HOL-Library.Monad_Syntax"
begin

section \<open>Text, character classes and the regular-expression primitives\<close>

text \<open>
  Both scripts read a file into a Python \<open>str\<close>, rewrite it with \<open>re.sub\<close>,
  \<open>re.finditer\<close>, \<open>str.split\<close> and \<open>str.join\<close>, and write it back. A text is a
  \<open>string\<close>; a character stands for the code point of the same number, 0 to 255.
  The patterns are \<open>str\<close> patterns, so \<open>\s\<close>, \<open>\w\<close> and \<open>\b\<close> follow
  Unicode: among these code points \<open>\s\<close> and \<open>str.strip\<close> take 9-13, 28-32, 133
  and 160, and \<open>\w\<close> takes the digits, the letters, the underscore and the Latin-1
  letters and numeric characters 170, 178, 179, 181, 185, 186, 188-190, 192-214, 216-246
  and 248-255. Texts with code points above 255 are outside the model.
\<close>

abbreviation nl :: char where
  "nl \<equiv> CHR 0x0A"

abbreviation sq :: char where
  "sq \<equiv> CHR 0x27"

abbreviation dq :: char where
  "dq \<equiv> CHR 0x22"

definition is_space :: "char \<Rightarrow> bool" where
  "is_space c = (let n = (of_char c :: nat) in
     (9 \<le> n \<and> n \<le> 13) \<or> (28 \<le> n \<and> n \<le> 32) \<or> n = 133 \<or> n = 160)"

definition is_word :: "char \<Rightarrow> bool" where
  "is_word c = (let n = (of_char c :: nat) in
     (48 \<le> n \<and> n \<le> 57) \<or> (65 \<le> n \<and> n \<le> 90) \<or> n = 95 \<or> (97 \<le> n \<and> n \<le> 122)
     \<or> n = 170 \<or> n = 178 \<or> n = 179 \<or> n = 181 \<or> n = 185 \<or> n = 186
     \<or> (188 \<le> n \<and> n \<le> 190) \<or> (192 \<le> n \<and> n \<le> 214) \<or> (216 \<le> n \<and> n \<le> 246)
     \<or> (248 \<le> n \<and> n \<le> 255))"

text \<open>A literal piece of a pattern: the text must start with it.\<close>

fun lit :: "string \<Rightarrow> string \<Rightarrow> string option" where
  "lit [] s = Some s"
| "lit (p # ps) [] = None"
| "lit (p # ps) (c # cs) = (if p = c then lit ps cs else None)"

text \<open>
  \<open>C+\<close> for a character class \<open>C\<close>, greedy. In every pattern of the two scripts the
  piece that follows \<open>C+\<close> or \<open>C*\<close> starts with a character outside \<open>C\<close>, so the
  only length at which the rest of the pattern can match is the longest one, and
  backtracking never finds another match: \<open>C+\<close> is the longest non-empty run,
  \<open>C*\<close> drops the longest run.
\<close>

definition many1 :: "(char \<Rightarrow> bool) \<Rightarrow> string \<Rightarrow> (string \<times> string) option" where
  "many1 P s = (if takeWhile P s = [] then None else Some (takeWhile P s, dropWhile P s))"

definition many0 :: "(char \<Rightarrow> bool) \<Rightarrow> string \<Rightarrow> string" where
  "many0 P s = dropWhile P s"

text \<open>\<open>X?\<close> for a literal \<open>X\<close>, greedy, at the end of a pattern.\<close>

definition opt_lit :: "string \<Rightarrow> string \<Rightarrow> string" where
  "opt_lit p s = (case lit p s of Some r \<Rightarrow> r | None \<Rightarrow> s)"

text \<open>
  \<open>re.sub(pattern, repl, content)\<close>: scan from the left; where the pattern matches,
  emit the replacement and go on after the match; elsewhere copy one character. The
  matcher returns the replacement and the text after the match. No pattern of the
  scripts matches the empty string, so a match always consumes at least one character;
  the length test makes that visible to the termination proof.
\<close>

function re_sub :: "(string \<Rightarrow> (string \<times> string) option) \<Rightarrow> string \<Rightarrow> string" where
  "re_sub m [] = []"
| "re_sub m (c # cs) =
     (case m (c # cs) of
        Some (repl, rest) \<Rightarrow>
          (if length rest \<le> length cs then repl @ re_sub m rest else c # re_sub m cs)
      | None \<Rightarrow> c # re_sub m cs)"
  by pat_completeness auto
termination
  by (relation "measure (\<lambda>(m, s). length s)") auto

text \<open>\<open>re.finditer(pattern, content)\<close>: the matches from left to right, not overlapping.\<close>

function re_finditer :: "(string \<Rightarrow> ('a \<times> string) option) \<Rightarrow> string \<Rightarrow> 'a list" where
  "re_finditer m [] = []"
| "re_finditer m (c # cs) =
     (case m (c # cs) of
        Some (x, rest) \<Rightarrow>
          (if length rest \<le> length cs then x # re_finditer m rest else re_finditer m cs)
      | None \<Rightarrow> re_finditer m cs)"
  by pat_completeness auto
termination
  by (relation "measure (\<lambda>(m, s). length s)") auto

text \<open>\<open>s.split(sep)\<close> for a one-character separator, and \<open>sep.join(xs)\<close>.\<close>

fun split_on :: "char \<Rightarrow> string \<Rightarrow> string list" where
  "split_on sep [] = [[]]"
| "split_on sep (c # cs) =
     (if c = sep then [] # split_on sep cs
      else (case split_on sep cs of [] \<Rightarrow> [[c]] | l # ls \<Rightarrow> (c # l) # ls))"

fun join :: "string \<Rightarrow> string list \<Rightarrow> string" where
  "join sep [] = []"
| "join sep [x] = x"
| "join sep (x # y # ys) = x @ sep @ join sep (y # ys)"

text \<open>\<open>s.rstrip()\<close> and \<open>s.strip()\<close>.\<close>

definition rstrip :: "string \<Rightarrow> string" where
  "rstrip s = rev (dropWhile is_space (rev s))"

definition strip :: "string \<Rightarrow> string" where
  "strip s = rstrip (dropWhile is_space s)"

text \<open>\<open>re.sub(r'\n\n\n+', '\n\n', content)\<close>, the last step of both scripts.\<close>

definition blank_run :: "string \<Rightarrow> (string \<times> string) option" where
  "blank_run s = do {
     r \<leftarrow> lit [nl, nl, nl] s;
     Some ([nl, nl], many0 (\<lambda>c. c = nl) r)
   }"

definition collapse :: "string \<Rightarrow> string" where
  "collapse content = re_sub blank_run content"

text \<open>
  The insertion point of a new import line: one past the last line that starts with
  \<open>import\<close> and a space, 0 when there is none.
\<close>

definition import_step :: "nat \<times> string \<Rightarrow> nat \<Rightarrow> nat" where
  "import_step p insert_idx = (case p of (i, line) \<Rightarrow> if prefix ''import '' line then i + 1 else insert_idx)"

definition insert_idx :: "string list \<Rightarrow> nat" where
  "insert_idx lines = fold import_step (enumerate 0 lines) 0"

text \<open>\<open>lines.insert(idx, x)\<close> for \<open>0 \<le> idx \<le> len(lines)\<close>.\<close>

definition list_insert :: "nat \<Rightarrow> 'a \<Rightarrow> 'a list \<Rightarrow> 'a list" where
  "list_insert idx x xs = take idx xs @ [x] @ drop idx xs"

definition insert_import :: "string \<Rightarrow> string \<Rightarrow> string" where
  "insert_import stmt content =
     (let lines = split_on nl content
      in join [nl] (list_insert (insert_idx lines) stmt lines))"

text \<open>
  A pattern made of literal characters and character classes only, such as
  \<open>from ['\"]@prisma/client['\"]\<close>: one class (the list of its characters) per
  position.
\<close>

fun fixed :: "char list list \<Rightarrow> string \<Rightarrow> string option" where
  "fixed [] s = Some s"
| "fixed (cl # p) [] = None"
| "fixed (cl # p) (c # cs) = (if c \<in> set cl then fixed p cs else None)"

definition chars :: "string \<Rightarrow> char list list" where
  "chars s = map (\<lambda>c. [c]) s"

definition quotes :: "char list" where
  "quotes = [sq, dq]"

definition sub_fixed :: "char list list \<Rightarrow> string \<Rightarrow> string \<Rightarrow> string" where
  "sub_fixed pat repl content = re_sub (\<lambda>s. map_option (\<lambda>rest. (repl, rest)) (fixed pat s)) content"

text \<open>
  Auxiliary notions for reasoning about a fixed-length pattern. \<open>compat pat s\<close>: as far
  as both reach, every character of \<open>s\<close> is in the class at its position.
  \<open>tails_apart p w\<close>: no non-empty suffix of the pattern \<open>p\<close> is compatible with
  \<open>w\<close>. \<open>no_left_overlap pat w\<close>: a match that starts before an occurrence of
  \<open>w\<close> cannot reach into it; \<open>no_inner_start pat w\<close>: no match starts inside an
  occurrence of \<open>w\<close>. \<open>occurs pat s\<close>: the pattern matches somewhere in \<open>s\<close>;
  \<open>expand pat\<close>: the texts the pattern matches.
\<close>

fun compat :: "char list list \<Rightarrow> string \<Rightarrow> bool" where
  "compat (cl # p) (c # cs) = (c \<in> set cl \<and> compat p cs)"
| "compat p s = True"

fun tails_apart :: "char list list \<Rightarrow> string \<Rightarrow> bool" where
  "tails_apart [] w = True"
| "tails_apart (cl # p) w = (\<not> compat (cl # p) w \<and> tails_apart p w)"

definition no_left_overlap :: "char list list \<Rightarrow> string \<Rightarrow> bool" where
  "no_left_overlap pat w = tails_apart (tl pat) w"

fun no_inner_start :: "char list list \<Rightarrow> string \<Rightarrow> bool" where
  "no_inner_start pat [] = True"
| "no_inner_start pat (c # cs) = (\<not> compat pat (c # cs) \<and> no_inner_start pat cs)"

definition apart :: "char list list \<Rightarrow> string \<Rightarrow> bool" where
  "apart pat w = (no_left_overlap pat w \<and> no_inner_start pat w)"

fun occurs :: "char list list \<Rightarrow> string \<Rightarrow> bool" where
  "occurs pat [] = (fixed pat [] \<noteq> None)"
| "occurs pat (c # cs) = (fixed pat (c # cs) \<noteq> None \<or> occurs pat cs)"

fun expand :: "char list list \<Rightarrow> string list" where
  "expand [] = [[]]"
| "expand (cl # p) = concat (map (\<lambda>c. map ((#) c) (expand p)) cl)"

section \<open>fix-service-lazy-init.py\<close>

definition SERVICE_GETTERS :: "string \<rightharpoonup> string" where
  "SERVICE_GETTERS = map_of
    [(''AuthUserService'', ''getAuthUserService''),
     (''AuthNonceService'', ''getAuthNonceService''),
     (''AuthApiKeyService'', ''getAuthApiKeyService''),
     (''Erc20TokenService'', ''getErc20TokenService''),
     (''UserTokenBalanceService'', ''getUserTokenBalanceService''),
     (''UniswapV3PoolService'', ''getUniswapV3PoolService''),
     (''UniswapV3PoolDiscoveryService'', ''getUniswapV3PoolDiscoveryService''),
     (''UniswapV3PositionService'', ''getUniswapV3PositionService''),
     (''UniswapV3PositionLedgerService'', ''getUniswapV3PositionLedgerService''),
     (''PositionListService'', ''getPositionListService''),
     (''PositionAprService'', ''getPositionAprService'')]"

text \<open>The guard: \<open>"from '@/lib/services'" in content\<close>.\<close>

definition lib_services :: string where
  "lib_services = ''from '' @ [sq] @ ''@/lib/services'' @ [sq]"

definition lazy_guard :: "string \<Rightarrow> bool" where
  "lazy_guard content = sublist lib_services content"

text \<open>
  \<open>inst_pattern = r'const\s+(\w+)\s*=\s*new\s+(\w+Service)\(\);?'\<close>, matched at the
  start of the text: the two groups and the text after the match. Group 2 is followed
  by \<open>(\<close>, so it is the whole run of word characters; \<open>\w+Service\<close> matches that run
  when it ends with \<open>Service\<close> and has at least one character before it.
\<close>

definition inst_match :: "string \<Rightarrow> ((string \<times> string) \<times> string) option" where
  "inst_match s = do {
     s1 \<leftarrow> lit ''const'' s;
     (sp1, s2) \<leftarrow> many1 is_space s1;
     (var_name, s3) \<leftarrow> many1 is_word s2;
     s4 \<leftarrow> lit ''='' (many0 is_space s3);
     s5 \<leftarrow> lit ''new'' (many0 is_space s4);
     (sp2, s6) \<leftarrow> many1 is_space s5;
     (service_class, s7) \<leftarrow> many1 is_word s6;
     (if suffix ''Service'' service_class \<and> 7 < length service_class
      then do {
        s8 \<leftarrow> lit ''()'' s7;
        Some ((var_name, service_class), opt_lit '';'' s8)
      }
      else None)
   }"

text \<open>
  Step 1. \<open>var_to_service\<close> is a dict, which keeps the order of first insertion and
  overwrites the value of a key that is assigned again; \<open>used_getters\<close> is a set.
\<close>

definition record_inst ::
  "string \<times> string \<Rightarrow> (string \<times> string) list \<times> string set \<Rightarrow> (string \<times> string) list \<times> string set" where
  "record_inst m st =
     (case m of (var_name, service_class) \<Rightarrow>
      (case st of (var_to_service, used_getters) \<Rightarrow>
       (case SERVICE_GETTERS service_class of
          Some getter \<Rightarrow>
            (AList.update var_name service_class var_to_service, insert getter used_getters)
        | None \<Rightarrow> (var_to_service, used_getters))))"

text \<open>A match of the instantiation pattern whose class is a key of the mapping.\<close>

definition mapped :: "string \<times> string \<Rightarrow> bool" where
  "mapped m = (SERVICE_GETTERS (snd m) \<noteq> None)"

definition scan_insts :: "string \<Rightarrow> (string \<times> string) list \<times> string set" where
  "scan_insts content = fold record_inst (re_finditer inst_match content) ([], {})"

text \<open>
  Step 2, one variable: \<open>re.sub(rf'\b{re.escape(var_name)}\.(\w+)', rf'{getter}().\1', content)\<close>.
  \<open>\b\<close> holds where exactly one of the previous and the next character is a word
  character; the scan carries whether the previous character is one. \<open>re.escape\<close>
  leaves a name of word characters as it is.
\<close>

definition call_match :: "string \<Rightarrow> bool \<Rightarrow> string \<Rightarrow> (string \<times> string) option" where
  "call_match var_name prev_word s =
     (if prev_word = (case s of [] \<Rightarrow> False | c # _ \<Rightarrow> is_word c) then None
      else do {
        s1 \<leftarrow> lit var_name s;
        s2 \<leftarrow> lit ''.'' s1;
        many1 is_word s2
      })"

function sub_call :: "string \<Rightarrow> string \<Rightarrow> bool \<Rightarrow> string \<Rightarrow> string" where
  "sub_call var_name getter prev_word [] = []"
| "sub_call var_name getter prev_word (c # cs) =
     (case call_match var_name prev_word (c # cs) of
        Some (member, rest) \<Rightarrow>
          (if length rest \<le> length cs
           then getter @ ''().'' @ member @ sub_call var_name getter (is_word (last member)) rest
           else c # sub_call var_name getter (is_word c) cs)
      | None \<Rightarrow> c # sub_call var_name getter (is_word c) cs)"
  by pat_completeness auto
termination
  by (relation "measure (\<lambda>(v, g, p, s). length s)") auto

text \<open>
  Step 2, the loop over \<open>var_to_service.items()\<close>. Only keys of \<open>SERVICE_GETTERS\<close>
  are recorded, so the lookup \<open>SERVICE_GETTERS[service_class]\<close> finds its key.
\<close>

definition replace_calls :: "(string \<times> string) list \<Rightarrow> string \<Rightarrow> string" where
  "replace_calls var_to_service content =
     fold (\<lambda>(var_name, service_class) content.
             (case SERVICE_GETTERS service_class of
                Some getter \<Rightarrow> sub_call var_name getter False content
              | None \<Rightarrow> content))
          var_to_service content"

text \<open>Step 3: \<open>re.sub(inst_pattern, '', content)\<close>.\<close>

definition remove_insts :: "string \<Rightarrow> string" where
  "remove_insts content = re_sub (\<lambda>s. map_option (\<lambda>(g, rest). ([], rest)) (inst_match s)) content"

text \<open>
  Step 4: \<open>import_pattern = r"import\s*\{([^}]+)\}\s*from\s*'@midcurve/services';"\<close>
  and the replacement function \<open>remove_services\<close>.
\<close>

definition import_match :: "string \<Rightarrow> (string \<times> string) option" where
  "import_match s = do {
     s1 \<leftarrow> lit ''import'' s;
     s2 \<leftarrow> lit ''{'' (many0 is_space s1);
     (imports, s3) \<leftarrow> many1 (\<lambda>c. c \<noteq> CHR ''}'') s2;
     s4 \<leftarrow> lit ''}'' s3;
     s5 \<leftarrow> lit ''from'' (many0 is_space s4);
     s6 \<leftarrow> lit ([sq] @ ''@midcurve/services'' @ [sq] @ '';'') (many0 is_space s5);
     Some (imports, s6)
   }"

definition remove_services :: "string set \<Rightarrow> string \<Rightarrow> string" where
  "remove_services services_to_remove imports =
     (let import_list = map strip (split_on CHR '','' imports);
          remaining = filter (\<lambda>imp. imp \<notin> services_to_remove) import_list
      in if remaining = [] then []
         else ''import { '' @ join '', '' remaining @ '' } from '' @ [sq] @ ''@midcurve/services'' @ [sq] @ '';'')"

definition prune_imports :: "(string \<times> string) list \<Rightarrow> string \<Rightarrow> string" where
  "prune_imports var_to_service content =
     re_sub (\<lambda>s. map_option (\<lambda>(imports, rest). (remove_services (set (map snd var_to_service)) imports, rest))
                   (import_match s)) content"

text \<open>Step 5: the import of the getters, inserted after the last import line.\<close>

definition getter_import :: "string set \<Rightarrow> string" where
  "getter_import used_getters =
     ''import { '' @ join '', '' (sorted_list_of_set used_getters) @ '' } '' @ lib_services @ '';'' @ [nl]"

definition add_getter_import :: "string set \<Rightarrow> string \<Rightarrow> string" where
  "add_getter_import used_getters content =
     (if used_getters \<noteq> {} then insert_import (rstrip (getter_import used_getters)) content
      else content)"

text \<open>
  The text part of \<open>fix_file\<close>: the two early returns, or the content after step 6.
\<close>

datatype outcome = Already_migrated | Nothing_found | Processed string

definition lazy_rewrite :: "string \<Rightarrow> outcome" where
  "lazy_rewrite content =
     (if lazy_guard content then Already_migrated
      else (case scan_insts content of (var_to_service, used_getters) \<Rightarrow>
        if var_to_service = [] then Nothing_found
        else Processed (collapse (add_getter_import used_getters
               (prune_imports var_to_service (remove_insts (replace_calls var_to_service content)))))))"

text \<open>
  \<open>fix_file(filepath)\<close> on a file system that maps a path to the text of its file, as
  \<open>read_text\<close> returns it and \<open>write_text\<close> stores it (the translation of line
  endings by Python's text mode is not modelled). Reading a missing file raises
  (\<open>None\<close>); otherwise the result is the returned flag and the file system after the
  call. The progress messages are not modelled.
\<close>

type_synonym files = "string \<rightharpoonup> string"

definition write_back :: "files \<Rightarrow> string \<Rightarrow> string \<Rightarrow> string \<Rightarrow> bool \<times> files" where
  "write_back fs filepath original content =
     (if content \<noteq> original then (True, fs(filepath \<mapsto> content)) else (False, fs))"

definition lazy_fix_file :: "files \<Rightarrow> string \<Rightarrow> (bool \<times> files) option" where
  "lazy_fix_file fs filepath =
     (case fs filepath of
        None \<Rightarrow> None
      | Some original \<Rightarrow>
          (case lazy_rewrite original of
             Already_migrated \<Rightarrow> Some (False, fs)
           | Nothing_found \<Rightarrow> Some (False, fs)
           | Processed content \<Rightarrow> Some (write_back fs filepath original content)))"

text \<open>The rewrite as a function from text to text: the content when \<open>fix_file\<close> returns.\<close>

definition lazy_text :: "string \<Rightarrow> string" where
  "lazy_text content = (case lazy_rewrite content of Processed c \<Rightarrow> c | _ \<Rightarrow> content)"

section \<open>update-prisma-imports.py\<close>

definition database_sq :: string where
  "database_sq = ''from '' @ [sq] @ ''@midcurve/database'' @ [sq]"

definition database_dq :: string where
  "database_dq = ''from '' @ [dq] @ ''@midcurve/database'' @ [dq]"

definition prisma_guard :: "string \<Rightarrow> bool" where
  "prisma_guard content = (sublist database_sq content \<or> sublist database_dq content)"

text \<open>Pattern 1: \<open>re.sub(r"from ['\"]@prisma/client['\"]", "from '@midcurve/database'", content)\<close>.\<close>

definition from_client_pat :: "char list list" where
  "from_client_pat = chars ''from '' @ [quotes] @ chars ''@prisma/client'' @ [quotes]"

definition replace_from :: "string \<Rightarrow> string" where
  "replace_from content = sub_fixed from_client_pat database_sq content"

text \<open>Pattern 2: the test for the dynamic require, the test for the import, the insertion
  and the replacement of the expression.\<close>

definition require_sq :: string where
  "require_sq = ''require('' @ [sq] @ ''@prisma/client'' @ [sq] @ '').PrismaClient''"

definition require_dq :: string where
  "require_dq = ''require('' @ [dq] @ ''@prisma/client'' @ [dq] @ '').PrismaClient''"

definition has_require :: "string \<Rightarrow> bool" where
  "has_require content = (sublist require_sq content \<or> sublist require_dq content)"

definition import_prisma :: string where
  "import_prisma = ''import { prisma''"

definition prisma_import_line :: string where
  "prisma_import_line = ''import { prisma } '' @ database_sq @ '';''"

definition new_client_pat :: "char list list" where
  "new_client_pat = chars ''new (require('' @ [quotes] @ chars ''@prisma/client'' @ [quotes]
     @ chars '').PrismaClient)() as PrismaClient''"

text \<open>The expression that pattern 2 matches, with its two quotes.\<close>

definition new_client_expr :: "char \<Rightarrow> char \<Rightarrow> string" where
  "new_client_expr q1 q2 =
     ''new (require('' @ [q1] @ ''@prisma/client'' @ [q2] @ '').PrismaClient)() as PrismaClient''"

definition replace_require :: "string \<Rightarrow> string" where
  "replace_require content =
     (if has_require content
      then sub_fixed new_client_pat ''prisma''
             (if \<not> sublist import_prisma content then insert_import prisma_import_line content
              else content)
      else content)"

definition prisma_rewrite :: "string \<Rightarrow> string option" where
  "prisma_rewrite content =
     (if prisma_guard content then None
      else Some (collapse (replace_require (replace_from content))))"

definition prisma_fix_file :: "files \<Rightarrow> string \<Rightarrow> (bool \<times> files) option" where
  "prisma_fix_file fs filepath =
     (case fs filepath of
        None \<Rightarrow> None
      | Some original \<Rightarrow>
          (case prisma_rewrite original of
             None \<Rightarrow> Some (False, fs)
           | Some content \<Rightarrow> Some (write_back fs filepath original content)))"

definition prisma_text :: "string \<Rightarrow> string" where
  "prisma_text content = (case prisma_rewrite content of Some c \<Rightarrow> c | None \<Rightarrow> content)"

section \<open>Example files\<close>

text \<open>A route file that instantiates a mapped class and an unmapped one.\<close>

definition mixed_route :: string where
  "mixed_route =
     ''import { AuthUserService, FooService } from '' @ [sq] @ ''@midcurve/services'' @ [sq] @ '';'' @ [nl]
     @ ''const a = new AuthUserService();'' @ [nl]
     @ ''const b = new FooService();'' @ [nl]
     @ ''a.x();'' @ [nl]
     @ ''b.y();'' @ [nl]"

text \<open>Examples 3 and 4 of the specification, and the expression of pattern 2 with single quotes.\<close>

definition example3_in :: string where
  "example3_in = ''import { PrismaClient } from '' @ [sq] @ ''@prisma/client'' @ [sq] @ '';''"

definition example3_out :: string where
  "example3_out = ''import { PrismaClient } from '' @ [sq] @ ''@midcurve/database'' @ [sq] @ '';''"

definition new_client_sq :: string where
  "new_client_sq = ''new (require('' @ [sq] @ ''@prisma/client'' @ [sq] @ '').PrismaClient)() as PrismaClient''"

definition example4_in :: string where
  "example4_in = ''import { Logger } from '' @ [sq] @ ''./logger'' @ [sq] @ '';'' @ [nl]
     @ ''const client = '' @ new_client_sq @ '';'' @ [nl]"

definition example4_out :: string where
  "example4_out = ''import { Logger } from '' @ [sq] @ ''./logger'' @ [sq] @ '';'' @ [nl]
     @ ''import { prisma } from '' @ [sq] @ ''@midcurve/database'' @ [sq] @ '';'' @ [nl]
     @ ''const client = prisma;'' @ [nl]"

text \<open>A file that imports another name starting with \<open>prisma\<close> and constructs the client.\<close>

definition mock_file :: string where
  "mock_file = ''import { prismaMock } from '' @ [sq] @ ''./mock'' @ [sq] @ '';'' @ [nl]
     @ ''const client = '' @ new_client_sq @ '';'' @ [nl]"

definition mock_file_out :: string where
  "mock_file_out = ''import { prismaMock } from '' @ [sq] @ ''./mock'' @ [sq] @ '';'' @ [nl]
     @ ''const client = prisma;'' @ [nl]"

text \<open>
  A file that imports \<open>prismaMock\<close> and has a comment in which replacing the expression
  of pattern 2 forms an import-from clause of the legacy client.
\<close>

definition nested_text :: string where
  "nested_text = ''import { prismaMock } from '' @ [sq] @ ''./mock'' @ [sq] @ '';'' @ [nl]
     @ ''// from '' @ [sq] @ ''@'' @ new_client_sq @ ''/client'' @ [sq] @ [nl]"

text \<open>A file that already imports \<open>prisma\<close> from the database package and still
  constructs the client by the dynamic require.\<close>

definition guarded_file :: string where
  "guarded_file = ''import { prisma } from '' @ [sq] @ ''@midcurve/database'' @ [sq] @ '';'' @ [nl]
     @ ''const client = '' @ new_client_sq @ '';'' @ [nl]"

text \<open>
  Two route files whose only names in the legacy import are the instantiated classes: one
  with the import on a single line, one with a multi-line import that ends in a comma.
\<close>

definition single_line_route :: string where
  "single_line_route =
     ''import { AuthUserService, AuthNonceService } from '' @ [sq] @ ''@midcurve/services'' @ [sq] @ '';'' @ [nl]
     @ ''const a = new AuthUserService();'' @ [nl]
     @ ''const b = new AuthNonceService();'' @ [nl]"

definition trailing_comma_route :: string where
  "trailing_comma_route =
     ''import {'' @ [nl]
     @ ''  AuthUserService,'' @ [nl]
     @ ''  AuthNonceService,'' @ [nl]
     @ ''} from '' @ [sq] @ ''@midcurve/services'' @ [sq] @ '';'' @ [nl]
     @ ''const a = new AuthUserService();'' @ [nl]
     @ ''const b = new AuthNonceService();'' @ [nl]"


section \<open>Properties of the text primitives\<close>

subsection \<open>Collapsing runs of newlines\<close>

lemma blank_run_Some:
  "blank_run s = Some (r, rest) \<longleftrightarrow>
     (\<exists>t. s = nl # nl # nl # t \<and> r = [nl, nl] \<and> rest = dropWhile (\<lambda>c. c = nl) t)"
  apply (cases s; simp add: blank_run_def many0_def)
  subgoal for a s1
    apply (cases s1; simp)
    subgoal for b s2
      apply (cases s2; simp)
      by auto
    done
  done

lemma collapse_Nil [simp]: "collapse [] = []"
  by (simp add: collapse_def)

lemma collapse_run:
  "collapse (nl # nl # nl # t) = nl # nl # collapse (dropWhile (\<lambda>c. c = nl) t)"
  by (simp add: collapse_def blank_run_def many0_def length_dropWhile_le le_SucI)

lemma blank_run_None: "\<not> prefix [nl, nl, nl] s \<Longrightarrow> blank_run s = None"
  by (cases "blank_run s") (auto simp: blank_run_Some)

lemma collapse_copy:
  "\<not> prefix [nl, nl, nl] (c # cs) \<Longrightarrow> collapse (c # cs) = c # collapse cs"
  by (simp add: collapse_def blank_run_None)

lemma collapse_cases [case_names Nil Run Copy]:
  assumes "s = [] \<Longrightarrow> P"
    and "\<And>t. s = nl # nl # nl # t \<Longrightarrow> P"
    and "\<And>c cs. s = c # cs \<Longrightarrow> \<not> prefix [nl, nl, nl] s \<Longrightarrow> P"
  shows P
proof (cases "prefix [nl, nl, nl] s")
  case True
  then obtain t where "s = [nl, nl, nl] @ t" by (auto simp: prefix_def)
  then show ?thesis using assms(2) by simp
next
  case False
  then show ?thesis using assms(1,3) by (cases s) auto
qed

lemma collapse_hd: "collapse s = x # r \<Longrightarrow> \<exists>t. s = x # t"
  by (cases s rule: collapse_cases) (auto simp: collapse_run collapse_copy)

lemma dropWhile_nl_hd: "dropWhile (\<lambda>c. c = nl) t \<noteq> nl # u"
  by (metis (mono_tags, lifting) hd_dropWhile list.sel(1) list.distinct(1))

lemma collapse_not_nl_hd: "collapse (dropWhile (\<lambda>c. c = nl) t) \<noteq> nl # u"
  using collapse_hd dropWhile_nl_hd by blast

lemma collapse_no_run: "\<not> sublist [nl, nl, nl] (collapse s)"
proof (induction s rule: length_induct)
  case (1 s)
  show ?case
  proof (cases s rule: collapse_cases)
    case Nil
    then show ?thesis by simp
  next
    case (Run t)
    have "length (dropWhile (\<lambda>c. c = nl) t) < length s"
      using Run by (simp add: length_dropWhile_le less_Suc_eq_le le_SucI)
    then have "\<not> sublist [nl, nl, nl] (collapse (dropWhile (\<lambda>c. c = nl) t))"
      using 1 by blast
    then show ?thesis
      using Run collapse_not_nl_hd [of t]
      by (auto simp: collapse_run sublist_Cons_right prefix_def)
  next
    case (Copy c cs)
    have ih: "\<not> sublist [nl, nl, nl] (collapse cs)"
      using 1 Copy by simp
    show ?thesis
    proof
      assume "sublist [nl, nl, nl] (collapse s)"
      moreover have "collapse s = c # collapse cs"
        using Copy by (simp add: collapse_copy)
      ultimately have "prefix [nl, nl, nl] (c # collapse cs)"
        using ih by (metis sublist_Cons_right)
      then obtain r where c: "c = nl" and r: "collapse cs = nl # nl # r"
        by (auto simp: prefix_def)
      from r obtain t where t: "cs = nl # t" using collapse_hd by blast
      have "\<exists>t'. t = nl # t'"
      proof (cases "prefix [nl, nl, nl] cs")
        case True
        then show ?thesis using t by (auto simp: prefix_def)
      next
        case False
        then have "collapse cs = nl # collapse t" using t collapse_copy by blast
        then have "collapse t = nl # r" using r by simp
        then show ?thesis using collapse_hd by blast
      qed
      then show False using Copy c t by auto
    qed
  qed
qed

lemma collapse_id: "\<not> sublist [nl, nl, nl] s \<Longrightarrow> collapse s = s"
proof (induction s)
  case Nil
  then show ?case by simp
next
  case (Cons c cs)
  then have "\<not> prefix [nl, nl, nl] (c # cs)" and "\<not> sublist [nl, nl, nl] cs"
    by (auto simp: sublist_Cons_right)
  then show ?case using Cons.IH by (simp add: collapse_copy)
qed

lemma collapse_idem: "collapse (collapse s) = collapse s"
  by (simp add: collapse_id collapse_no_run)

lemma collapse_free: "nl \<notin> set p \<Longrightarrow> collapse (p @ t) = p @ collapse t"
  by (induction p) (auto simp: collapse_copy prefix_Cons)

lemma prefix_append_notin: "c \<notin> set p \<Longrightarrow> prefix p (xs @ c # t) \<Longrightarrow> prefix p xs"
  by (induction xs arbitrary: p) (auto simp: prefix_Cons)

lemma collapse_split: "c \<noteq> nl \<Longrightarrow> collapse (a @ c # t) = collapse a @ c # collapse t"
proof (induction a rule: length_induct)
  case (1 a)
  show ?case
  proof (cases a rule: collapse_cases)
    case Nil
    then show ?thesis using 1(2) by (simp add: collapse_copy prefix_Cons)
  next
    case (Run u)
    let ?d = "dropWhile (\<lambda>c. c = nl) u"
    have len: "length ?d < length a"
      using Run by (simp add: length_dropWhile_le less_Suc_eq_le le_SucI)
    have "dropWhile (\<lambda>c. c = nl) (u @ c # t) = ?d @ c # t"
      using 1(2) by (simp add: dropWhile_append)
    then have "collapse (a @ c # t) = nl # nl # collapse (?d @ c # t)"
      using Run by (simp add: collapse_run)
    also have "collapse (?d @ c # t) = collapse ?d @ c # collapse t"
      using 1 len by blast
    finally show ?thesis using Run by (simp add: collapse_run)
  next
    case (Copy x xs)
    have "\<not> prefix [nl, nl, nl] (x # xs @ c # t)"
      using Copy 1(2) prefix_append_notin [of c "[nl, nl, nl]" a t] by auto
    then have "collapse (a @ c # t) = x # collapse (xs @ c # t)"
      using Copy by (simp add: collapse_copy)
    then show ?thesis using 1 Copy by (simp add: collapse_copy)
  qed
qed

lemma sublist_collapse_mono:
  assumes "nl \<notin> set p" "sublist p s"
  shows "sublist p (collapse s)"
proof (cases p)
  case Nil
  then show ?thesis by simp
next
  case (Cons c p')
  from assms(2) obtain a b where "s = a @ p @ b" by (auto simp: sublist_def)
  moreover have "c \<noteq> nl" "nl \<notin> set p'" using assms(1) Cons by auto
  ultimately have "collapse s = collapse a @ p @ collapse b"
    using Cons by (simp add: collapse_split collapse_free)
  then show ?thesis by (metis sublist_appendI)
qed

lemma prefix_collapse_refl:
  "nl \<notin> set p \<Longrightarrow> prefix p (collapse s) \<Longrightarrow> prefix p s"
proof (induction p arbitrary: s)
  case Nil
  then show ?case by simp
next
  case (Cons c p)
  from Cons.prems obtain r where r: "collapse s = c # r" and pr: "prefix p r"
    by (auto simp: prefix_def)
  then obtain t where t: "s = c # t" using collapse_hd by blast
  have "c \<noteq> nl" using Cons.prems by auto
  then have "collapse s = c # collapse t" using t by (simp add: collapse_copy prefix_Cons)
  then show ?case using Cons r pr t by auto
qed

lemma sublist_collapse_refl:
  assumes "nl \<notin> set p" "p \<noteq> []"
  shows "sublist p (collapse s) \<Longrightarrow> sublist p s"
proof (induction s rule: length_induct)
  case (1 s)
  show ?case
  proof (cases s rule: collapse_cases)
    case Nil
    then show ?thesis using 1 by simp
  next
    case (Run t)
    let ?d = "dropWhile (\<lambda>c. c = nl) t"
    have len: "length ?d < length s"
      using Run by (simp add: length_dropWhile_le less_Suc_eq_le le_SucI)
    have "sublist p (nl # nl # collapse ?d)" using 1(2) Run by (simp add: collapse_run)
    then have "sublist p (collapse ?d)"
      using assms by (cases p) (auto simp: sublist_Cons_right prefix_Cons)
    then have "sublist p ?d" using 1(1) len by blast
    moreover have "sublist ?d s" using Run by (metis sublist_dropWhile sublist_Cons_right)
    ultimately show ?thesis by (rule sublist_order.order.trans)
  next
    case (Copy c cs)
    have "sublist p (c # collapse cs)" using 1(2) Copy by (simp add: collapse_copy)
    then consider "prefix p (c # collapse cs)" | "sublist p (collapse cs)"
      by (auto simp: sublist_Cons_right)
    then show ?thesis
    proof cases
      case 1
      then have "prefix p (collapse s)" using Copy by (simp add: collapse_copy)
      then show ?thesis using assms(1) prefix_collapse_refl by blast
    next
      case 2
      then have "sublist p cs" using "1.IH" Copy by simp
      then show ?thesis using Copy by (simp add: sublist_Cons_right)
    qed
  qed
qed

subsection \<open>Splitting and joining lines, inserting a line\<close>

lemma split_on_not_Nil [simp]: "split_on sep s \<noteq> []"
  by (induction s) (auto split: list.splits)

lemma join_Cons: "ls \<noteq> [] \<Longrightarrow> join sep (l # ls) = l @ sep @ join sep ls"
  by (cases ls) auto

lemma join_split: "join [sep] (split_on sep s) = s"
proof (induction s)
  case Nil
  then show ?case by simp
next
  case (Cons c cs)
  show ?case
  proof (cases "c = sep")
    case True
    then show ?thesis using Cons by (simp add: join_Cons)
  next
    case False
    obtain l ls where l: "split_on sep cs = l # ls"
      by (cases "split_on sep cs") auto
    then have "join [sep] ((c # l) # ls) = c # join [sep] (l # ls)"
      by (cases ls) auto
    then show ?thesis using False l Cons by simp
  qed
qed

lemma sublist_join: "l \<in> set ls \<Longrightarrow> sublist l (join sep ls)"
proof (induction ls)
  case Nil
  then show ?case by simp
next
  case (Cons x xs)
  show ?case
  proof (cases "xs = []")
    case True
    then show ?thesis using Cons by simp
  next
    case False
    then have j: "join sep (x # xs) = x @ sep @ join sep xs" by (rule join_Cons)
    show ?thesis
    proof (cases "l = x")
      case True
      then show ?thesis using j by simp
    next
      case False
      then have "sublist l (join sep xs)" using Cons by simp
      then show ?thesis using j by (simp add: sublist_append)
    qed
  qed
qed

lemma sublist_split_notin:
  assumes "c \<notin> set p" "p \<noteq> []"
  shows "sublist p (a @ c # b) \<longleftrightarrow> sublist p a \<or> sublist p b"
proof
  assume "sublist p (a @ c # b)"
  then consider "sublist p a" | "sublist p (c # b)"
    | p1 p2 where "p = p1 @ p2" "suffix p1 a" "prefix p2 (c # b)"
    by (auto simp: sublist_append)
  then show "sublist p a \<or> sublist p b"
  proof cases
    case 1
    then show ?thesis by simp
  next
    case 2
    then show ?thesis using assms by (auto simp: sublist_Cons_right prefix_Cons)
  next
    case 3
    then have "p2 = []" using assms(1) by (auto simp: prefix_Cons)
    then show ?thesis using 3 by auto
  qed
next
  assume "sublist p a \<or> sublist p b"
  then show "sublist p (a @ c # b)"
    by (auto simp: sublist_append sublist_Cons_right)
qed

lemma sublist_join_lines:
  assumes "nl \<notin> set p" "p \<noteq> []"
  shows "sublist p (join [nl] ls) \<longleftrightarrow> (\<exists>l\<in>set ls. sublist p l)"
proof (induction ls)
  case Nil
  then show ?case using assms by simp
next
  case (Cons x xs)
  show ?case
  proof (cases "xs = []")
    case True
    then show ?thesis by simp
  next
    case False
    then have "join [nl] (x # xs) = x @ nl # join [nl] xs" by (simp add: join_Cons)
    then show ?thesis using Cons assms by (simp add: sublist_split_notin)
  qed
qed

lemma set_list_insert [simp]: "set (list_insert i x xs) = insert x (set xs)"
proof -
  have "set (take i xs) \<union> set (drop i xs) = set xs"
    by (metis append_take_drop_id set_append)
  then show ?thesis by (auto simp: list_insert_def)
qed

lemma sublist_insert_import_stmt: "sublist stmt (insert_import stmt content)"
  by (simp add: insert_import_def Let_def sublist_join)

lemma sublist_insert_import:
  assumes "nl \<notin> set p" "p \<noteq> []"
  shows "sublist p (insert_import stmt content) \<longleftrightarrow> sublist p stmt \<or> sublist p content"
proof -
  have "sublist p content \<longleftrightarrow> (\<exists>l\<in>set (split_on nl content). sublist p l)"
    using sublist_join_lines [OF assms, of "split_on nl content"] by (simp add: join_split)
  then show ?thesis
    using sublist_join_lines [OF assms] by (simp add: insert_import_def Let_def)
qed

lemma insert_idx_snoc:
  "insert_idx (ls @ [l]) = (if prefix ''import '' l then length ls + 1 else insert_idx ls)"
  by (simp add: insert_idx_def enumerate_append_eq import_step_def)

lemma insert_idx_Nil [simp]: "insert_idx [] = 0"
  by (simp add: insert_idx_def)

lemma insert_idx_le: "insert_idx ls \<le> length ls"
  by (induction ls rule: rev_induct) (auto simp: insert_idx_snoc)

lemma insert_idx_after: "insert_idx ls \<le> j \<Longrightarrow> j < length ls \<Longrightarrow> \<not> prefix ''import '' (ls ! j)"
proof (induction ls rule: rev_induct)
  case Nil
  then show ?case by simp
next
  case (snoc l ls)
  then show ?case
    by (cases "j < length ls") (auto simp: insert_idx_snoc nth_append less_Suc_eq split: if_splits)
qed

lemma insert_idx_last: "0 < insert_idx ls \<Longrightarrow> prefix ''import '' (ls ! (insert_idx ls - 1))"
proof (induction ls rule: rev_induct)
  case Nil
  then show ?case by simp
next
  case (snoc l ls)
  have "insert_idx ls \<le> length ls" by (rule insert_idx_le)
  then show ?case using snoc
    by (auto simp: insert_idx_snoc nth_append)
qed

lemma insert_idx_zero: "insert_idx ls = 0 \<longleftrightarrow> (\<forall>l\<in>set ls. \<not> prefix ''import '' l)"
  by (induction ls rule: rev_induct) (auto simp: insert_idx_snoc)

subsection \<open>Fixed-length patterns\<close>

lemma fixed_Some_iff:
  "fixed pat s = Some r \<longleftrightarrow> length pat \<le> length s \<and> compat pat s \<and> r = drop (length pat) s"
proof (induction pat s rule: fixed.induct)
  case (1 s)
  then show ?case by auto
next
  case (2 cl p)
  then show ?case by simp
next
  case (3 cl p c cs)
  then show ?case by simp
qed

lemma compat_append: "compat p (s @ t) \<Longrightarrow> compat p s"
  by (induction p s rule: compat.induct) auto

lemma compat_drop:
  "length a < length pat \<Longrightarrow> compat pat (a @ t) \<Longrightarrow> compat (drop (length a) pat) t"
proof (induction a arbitrary: pat)
  case Nil
  then show ?case by simp
next
  case (Cons x xs)
  then show ?case by (cases pat) auto
qed

lemma fixed_append: "fixed pat s = Some r \<Longrightarrow> fixed pat (s @ t) = Some (r @ t)"
  by (induction pat s rule: fixed.induct) (auto split: if_splits)

lemma fixed_within:
  assumes "fixed pat (a @ t) = Some rest" "length pat \<le> length a"
  shows "fixed pat a = Some (drop (length pat) a) \<and> rest = drop (length pat) a @ t"
  using assms compat_append [of pat a t] by (simp add: fixed_Some_iff)

lemma tails_apart_drop: "tails_apart q w \<Longrightarrow> k < length q \<Longrightarrow> \<not> compat (drop k q) w"
proof (induction q arbitrary: k)
  case Nil
  then show ?case by simp
next
  case (Cons cl q)
  then show ?case by (cases k) auto
qed

lemma sub_fixed_Nil [simp]: "sub_fixed pat r [] = []"
  by (simp add: sub_fixed_def)

lemma sub_fixed_match:
  assumes "pat \<noteq> []" "fixed pat (c # cs) = Some rest"
  shows "sub_fixed pat r (c # cs) = r @ sub_fixed pat r rest"
proof -
  have "rest = drop (length pat) (c # cs)" using assms(2) by (simp add: fixed_Some_iff)
  then have "length rest \<le> length cs" using assms(1) by (cases pat) auto
  then show ?thesis using assms(2) by (simp add: sub_fixed_def)
qed

lemma sub_fixed_copy:
  "fixed pat (c # cs) = None \<Longrightarrow> sub_fixed pat r (c # cs) = c # sub_fixed pat r cs"
  by (simp add: sub_fixed_def)

lemma sub_fixed_inner:
  "no_inner_start pat w \<Longrightarrow> sub_fixed pat r (w @ b) = w @ sub_fixed pat r b"
proof (induction w)
  case Nil
  then show ?case by simp
next
  case (Cons c cs)
  then have "\<not> compat pat ((c # cs) @ b)" using compat_append by fastforce
  then have "fixed pat (c # cs @ b) = None"
    by (cases "fixed pat (c # cs @ b)") (auto simp: fixed_Some_iff)
  then show ?case using Cons by (simp add: sub_fixed_copy)
qed

lemma sub_fixed_left:
  assumes "pat \<noteq> []" "no_left_overlap pat w"
  shows "sub_fixed pat r (a @ w @ b) = sub_fixed pat r a @ sub_fixed pat r (w @ b)"
proof (induction a rule: length_induct)
  case (1 a)
  show ?case
  proof (cases a)
    case Nil
    then show ?thesis by simp
  next
    case (Cons x xs)
    show ?thesis
    proof (cases "fixed pat (a @ w @ b)")
      case None
      then have "fixed pat a = None"
        using fixed_append [of pat a _ "w @ b"] by (cases "fixed pat a") auto
      then show ?thesis using None Cons 1 by (simp add: sub_fixed_copy)
    next
      case (Some rest)
      show ?thesis
      proof (cases "length pat \<le> length a")
        case True
        let ?d = "drop (length pat) a"
        have f: "fixed pat a = Some ?d" and rest: "rest = ?d @ w @ b"
          using fixed_within [OF Some True] by auto
        have "length ?d < length a" using assms(1) Cons by (cases pat) auto
        then have ih: "sub_fixed pat r (?d @ w @ b) = sub_fixed pat r ?d @ sub_fixed pat r (w @ b)"
          using 1 by blast
        have "sub_fixed pat r (a @ w @ b) = r @ sub_fixed pat r rest"
          using Some Cons sub_fixed_match [OF assms(1), of x "xs @ w @ b" rest r] by simp
        moreover have "sub_fixed pat r a = r @ sub_fixed pat r ?d"
          using f Cons sub_fixed_match [OF assms(1), of x xs ?d r] by simp
        ultimately show ?thesis using ih rest by simp
      next
        case False
        then have lt: "length a < length pat" by simp
        have "compat pat (a @ w @ b)" using Some by (simp add: fixed_Some_iff)
        then have "compat (drop (length a) pat) (w @ b)" using lt by (rule compat_drop [rotated])
        then have c: "compat (drop (length a) pat) w" by (rule compat_append)
        have "drop (length a) pat = drop (length xs) (tl pat)"
          using Cons by (simp add: drop_Suc)
        moreover have "length xs < length (tl pat)" using lt Cons by simp
        ultimately have "\<not> compat (drop (length a) pat) w"
          using assms(2) tails_apart_drop [of "tl pat" w "length xs"]
          by (simp add: no_left_overlap_def)
        then show ?thesis using c by simp
      qed
    qed
  qed
qed

lemma sub_fixed_apart:
  assumes "pat \<noteq> []" "apart pat w"
  shows "sub_fixed pat r (a @ w @ b) = sub_fixed pat r a @ w @ sub_fixed pat r b"
  using assms sub_fixed_left [of pat w r a b] sub_fixed_inner [of pat w r b]
  by (simp add: apart_def)

lemma sublist_sub_fixed:
  assumes "pat \<noteq> []" "apart pat w" "sublist w s"
  shows "sublist w (sub_fixed pat r s)"
proof -
  from assms(3) obtain a b where "s = a @ w @ b" by (auto simp: sublist_def)
  then show ?thesis using sub_fixed_apart [OF assms(1,2)] by (metis sublist_appendI)
qed

lemma sub_fixed_occurrence:
  assumes "pat \<noteq> []" "no_left_overlap pat v" "fixed pat v = Some []"
  shows "sub_fixed pat r (a @ v @ b) = sub_fixed pat r a @ r @ sub_fixed pat r b"
proof -
  have "v \<noteq> []" using assms(1,3) by (cases pat; cases v) auto
  then obtain c cs where v: "v = c # cs" by (cases v) auto
  have "fixed pat (v @ b) = Some b" using fixed_append [OF assms(3), of b] by simp
  then have "sub_fixed pat r (v @ b) = r @ sub_fixed pat r b"
    using v sub_fixed_match [OF assms(1), of c "cs @ b" b r] by simp
  then show ?thesis using sub_fixed_left [OF assms(1,2), of r a b] by simp
qed

lemma not_occurs_id: "\<not> occurs pat s \<Longrightarrow> sub_fixed pat r s = s"
  by (induction s) (auto simp: sub_fixed_copy)

lemma occurs_sublist_repl:
  assumes "pat \<noteq> []"
  shows "occurs pat s \<Longrightarrow> sublist r (sub_fixed pat r s)"
proof (induction s)
  case Nil
  then show ?case using assms by (cases pat) auto
next
  case (Cons c cs)
  show ?case
  proof (cases "fixed pat (c # cs)")
    case None
    then have "sublist r (sub_fixed pat r cs)" using Cons by simp
    then show ?thesis using None by (simp add: sub_fixed_copy sublist_Cons_right)
  next
    case (Some rest)
    then show ?thesis using sub_fixed_match [OF assms Some] by simp
  qed
qed

lemma fixed_expand: "fixed pat s = Some t \<longleftrightarrow> (\<exists>v\<in>set (expand pat). s = v @ t)"
proof (induction pat s rule: fixed.induct)
  case (1 s)
  then show ?case by auto
next
  case (2 cl p)
  then show ?case by auto
next
  case (3 cl p c cs)
  then show ?case by auto
qed

lemma occurs_expand: "occurs pat s \<longleftrightarrow> (\<exists>v\<in>set (expand pat). sublist v s)"
proof (induction s)
  case Nil
  have "fixed pat [] \<noteq> None \<longleftrightarrow> (\<exists>t. fixed pat [] = Some t)" by auto
  then show ?case by (auto simp: fixed_expand)
next
  case (Cons c cs)
  have "fixed pat (c # cs) \<noteq> None \<longleftrightarrow> (\<exists>t. fixed pat (c # cs) = Some t)" by auto
  also have "\<dots> \<longleftrightarrow> (\<exists>v\<in>set (expand pat). prefix v (c # cs))"
    by (auto simp: fixed_expand prefix_def)
  finally show ?case using Cons by (auto simp: sublist_Cons_right)
qed

subsection \<open>Fixed-length patterns: what substitution leaves and removes\<close>

lemma occurs_inner: "no_inner_start pat w \<Longrightarrow> occurs pat (w @ t) \<longleftrightarrow> occurs pat t"
proof (induction w)
  case Nil
  then show ?case by simp
next
  case (Cons c cs)
  then have "\<not> compat pat ((c # cs) @ t)" using compat_append by fastforce
  then have "fixed pat (c # cs @ t) = None"
    by (cases "fixed pat (c # cs @ t)") (auto simp: fixed_Some_iff)
  then show ?case using Cons by simp
qed

lemma prefix_sub_fixed_refl:
  assumes "pat \<noteq> []" "r \<noteq> []" "hd r \<notin> set p"
  shows "prefix p (sub_fixed pat r s) \<Longrightarrow> prefix p s"
  using assms(3)
proof (induction p arbitrary: s)
  case Nil
  then show ?case by simp
next
  case (Cons c p)
  from Cons.prems obtain t where t: "sub_fixed pat r s = c # t" and pt: "prefix p t"
    by (auto simp: prefix_def)
  then obtain x xs where s: "s = x # xs" by (cases s) auto
  show ?case
  proof (cases "fixed pat s")
    case None
    then have "sub_fixed pat r s = x # sub_fixed pat r xs" using s by (simp add: sub_fixed_copy)
    then show ?thesis using t pt s Cons by auto
  next
    case (Some rest)
    then have "sub_fixed pat r s = r @ sub_fixed pat r rest"
      using s sub_fixed_match [OF assms(1)] by simp
    then have "c = hd r" using t assms(2) by (cases r) auto
    then show ?thesis using Cons.prems by simp
  qed
qed

lemma sub_fixed_no_occurrence:
  assumes "pat \<noteq> []" "r \<noteq> []" "no_inner_start pat r"
    and "\<And>v. v \<in> set (expand pat) \<Longrightarrow> hd r \<notin> set (tl v)"
  shows "\<not> occurs pat (sub_fixed pat r s)"
proof (induction s rule: length_induct)
  case (1 s)
  show ?case
  proof (cases s)
    case Nil
    then show ?thesis using assms(1) by (cases pat) auto
  next
    case (Cons c cs)
    show ?thesis
    proof (cases "fixed pat s")
      case None
      have ih: "\<not> occurs pat (sub_fixed pat r cs)" using 1 Cons by simp
      have "fixed pat (c # sub_fixed pat r cs) = None"
      proof (rule ccontr)
        assume "fixed pat (c # sub_fixed pat r cs) \<noteq> None"
        then obtain t v where v: "v \<in> set (expand pat)" and eq: "c # sub_fixed pat r cs = v @ t"
          by (auto simp: fixed_expand)
        have "v \<noteq> []" using v assms(1) fixed_expand [of pat "[]" "[]"] by (cases pat) auto
        then obtain v' where v': "v = c # v'" using eq by (cases v) auto
        then have "prefix v' (sub_fixed pat r cs)" using eq by (auto simp: prefix_def)
        moreover have "hd r \<notin> set v'" using assms(4) [OF v] v' by simp
        ultimately have "prefix v' cs" using prefix_sub_fixed_refl [OF assms(1,2)] by blast
        then obtain t' where "c # cs = v @ t'" using v' by (auto simp: prefix_def)
        then have "fixed pat (c # cs) = Some t'" using v fixed_expand by blast
        then show False using None Cons by simp
      qed
      then show ?thesis using None Cons ih by (simp add: sub_fixed_copy)
    next
      case (Some rest)
      then have "rest = drop (length pat) s" by (simp add: fixed_Some_iff)
      then have "length rest < length s" using assms(1) Cons by (cases pat) auto
      then have "\<not> occurs pat (sub_fixed pat r rest)" using 1 by blast
      moreover have "sub_fixed pat r s = r @ sub_fixed pat r rest"
        using Some Cons sub_fixed_match [OF assms(1)] by simp
      ultimately show ?thesis using occurs_inner [OF assms(3)] by simp
    qed
  qed
qed

subsection \<open>The two patterns of update-prisma-imports.py\<close>

lemma pats_nonempty: "from_client_pat \<noteq> []" "new_client_pat \<noteq> []"
  by (simp_all add: from_client_pat_def new_client_pat_def chars_def)

lemma expand_from_client:
  "expand from_client_pat =
    [''from '' @ [sq] @ ''@prisma/client'' @ [sq], ''from '' @ [sq] @ ''@prisma/client'' @ [dq],
     ''from '' @ [dq] @ ''@prisma/client'' @ [sq], ''from '' @ [dq] @ ''@prisma/client'' @ [dq]]"
  by (simp add: from_client_pat_def chars_def quotes_def)

lemma apart_from_client:
  "apart from_client_pat require_sq" "apart from_client_pat require_dq"
  "apart from_client_pat import_prisma"
  by (simp_all add: apart_def no_left_overlap_def from_client_pat_def chars_def quotes_def
      require_sq_def require_dq_def import_prisma_def)

lemma apart_new_client: "apart new_client_pat database_sq"
  by (simp add: apart_def no_left_overlap_def new_client_pat_def chars_def quotes_def
      database_sq_def)

lemma nl_free:
  "nl \<notin> set database_sq" "nl \<notin> set database_dq" "nl \<notin> set require_sq" "nl \<notin> set require_dq"
  "nl \<notin> set import_prisma" "nl \<notin> set prisma_import_line" "nl \<notin> set lib_services"
  by (simp_all add: database_sq_def database_dq_def require_sq_def require_dq_def
      import_prisma_def prisma_import_line_def lib_services_def)

lemma from_client_occurrence:
  assumes "q1 \<in> set quotes" "q2 \<in> set quotes"
  shows "replace_from (a @ ''from '' @ [q1] @ ''@prisma/client'' @ [q2] @ b) =
         replace_from a @ database_sq @ replace_from b"
proof -
  let ?v = "''from '' @ [q1] @ ''@prisma/client'' @ [q2]"
  have "no_left_overlap from_client_pat ?v" "fixed from_client_pat ?v = Some []"
    using assms by (auto simp: no_left_overlap_def from_client_pat_def chars_def quotes_def)
  then show ?thesis
    using sub_fixed_occurrence [OF pats_nonempty(1), of ?v database_sq a b]
    by (simp add: replace_from_def)
qed

lemma replace_from_complete: "\<not> occurs from_client_pat (replace_from s)"
  unfolding replace_from_def
proof (rule sub_fixed_no_occurrence [OF pats_nonempty(1)])
  show "database_sq \<noteq> []" by (simp add: database_sq_def)
  show "no_inner_start from_client_pat database_sq"
    by (simp add: from_client_pat_def chars_def quotes_def database_sq_def)
  show "hd database_sq \<notin> set (tl v)" if "v \<in> set (expand from_client_pat)" for v
    using that by (auto simp: expand_from_client database_sq_def)
qed

lemma replace_require_keeps:
  assumes "nl \<notin> set w" "w \<noteq> []" "apart new_client_pat w" "sublist w c"
  shows "sublist w (replace_require c)"
  using assms
  by (simp add: replace_require_def sublist_sub_fixed [OF pats_nonempty(2)] sublist_insert_import)

lemma prisma_text_keeps:
  assumes "\<not> prisma_guard s" "nl \<notin> set w" "w \<noteq> []" "apart new_client_pat w"
    and "sublist w (replace_from s)"
  shows "sublist w (prisma_text s)"
  using assms
  by (simp add: prisma_text_def prisma_rewrite_def replace_require_keeps sublist_collapse_mono)

lemma has_require_replace_from: "has_require s \<Longrightarrow> has_require (replace_from s)"
  using sublist_sub_fixed [OF pats_nonempty(1) apart_from_client(1)]
    sublist_sub_fixed [OF pats_nonempty(1) apart_from_client(2)]
  by (auto simp: has_require_def replace_from_def)

lemma import_prisma_replace_from:
  "sublist import_prisma s \<Longrightarrow> sublist import_prisma (replace_from s)"
  using sublist_sub_fixed [OF pats_nonempty(1) apart_from_client(3)]
  by (simp add: replace_from_def)

subsection \<open>The two patterns keep the number of lines\<close>

lemma length_split_on: "length (split_on c s) = Suc (count_list s c)"
  by (induction s) (auto split: list.splits)

lemma count_sub_fixed:
  assumes "pat \<noteq> []" "\<forall>v\<in>set (expand pat). c \<notin> set v" "c \<notin> set r"
  shows "count_list (sub_fixed pat r s) c = count_list s c"
proof (induction s rule: length_induct)
  case (1 s)
  show ?case
  proof (cases s)
    case Nil
    then show ?thesis by simp
  next
    case (Cons x xs)
    show ?thesis
    proof (cases "fixed pat (x # xs)")
      case None
      then show ?thesis using 1 Cons by (simp add: sub_fixed_copy)
    next
      case (Some rest)
      then obtain v where v: "v \<in> set (expand pat)" "x # xs = v @ rest"
        by (auto simp: fixed_expand)
      have "rest = drop (length pat) (x # xs)" using Some by (simp add: fixed_Some_iff)
      then have "length rest < length s" using assms(1) Cons by (cases pat) auto
      then have "count_list (sub_fixed pat r rest) c = count_list rest c" using 1 by blast
      moreover have "count_list v c = 0" "count_list r c = 0"
        using v(1) assms(2,3) by (simp_all add: count_list_0_iff)
      ultimately show ?thesis
        using Cons v(2) sub_fixed_match [OF assms(1) Some, of r] by simp
    qed
  qed
qed

lemma expand_new_client:
  "expand new_client_pat =
    [''new (require('' @ [sq] @ ''@prisma/client'' @ [sq] @ '').PrismaClient)() as PrismaClient'',
     ''new (require('' @ [sq] @ ''@prisma/client'' @ [dq] @ '').PrismaClient)() as PrismaClient'',
     ''new (require('' @ [dq] @ ''@prisma/client'' @ [sq] @ '').PrismaClient)() as PrismaClient'',
     ''new (require('' @ [dq] @ ''@prisma/client'' @ [dq] @ '').PrismaClient)() as PrismaClient'']"
  by (simp add: new_client_pat_def chars_def quotes_def)

lemma lines_replace_from: "length (split_on nl (replace_from s)) = length (split_on nl s)"
  unfolding replace_from_def length_split_on
  using count_sub_fixed [OF pats_nonempty(1), of nl database_sq s]
  by (simp add: expand_from_client database_sq_def)

lemma lines_sub_new_client:
  "length (split_on nl (sub_fixed new_client_pat ''prisma'' s)) = length (split_on nl s)"
  unfolding length_split_on
  using count_sub_fixed [OF pats_nonempty(2), of nl "''prisma''" s]
  by (simp add: expand_new_client)

lemma new_client_expr_occurrence:
  assumes "q1 = sq \<or> q1 = dq" "q2 = sq \<or> q2 = dq"
  shows "sub_fixed new_client_pat ''prisma'' (a @ new_client_expr q1 q2 @ b) =
         sub_fixed new_client_pat ''prisma'' a @ ''prisma'' @ sub_fixed new_client_pat ''prisma'' b"
proof -
  have "no_left_overlap new_client_pat (new_client_expr q1 q2)"
    "fixed new_client_pat (new_client_expr q1 q2) = Some []"
    using assms
    by (auto simp: no_left_overlap_def new_client_pat_def chars_def quotes_def new_client_expr_def)
  then show ?thesis
    using sub_fixed_occurrence [OF pats_nonempty(2), of "new_client_expr q1 q2" "''prisma''" a b]
    by simp
qed

lemma replace_from_new_client:
  assumes "q1 = sq \<or> q1 = dq" "q2 = sq \<or> q2 = dq"
  shows "replace_from (a @ new_client_expr q1 q2 @ b) =
         replace_from a @ new_client_expr q1 q2 @ replace_from b"
proof -
  have "apart from_client_pat (new_client_expr q1 q2)"
    using assms
    by (auto simp: apart_def no_left_overlap_def from_client_pat_def chars_def quotes_def
        new_client_expr_def)
  then show ?thesis
    unfolding replace_from_def by (rule sub_fixed_apart [OF pats_nonempty(1)])
qed

subsection \<open>Runs of newlines; running a rewrite twice\<close>

lemma collapse_leading_run:
  assumes "3 \<le> k" "\<not> prefix [nl] b"
  shows "collapse (replicate k nl @ b) = [nl, nl] @ collapse b"
proof -
  obtain j where k: "k = Suc (Suc (Suc j))"
    using assms(1) by (metis Suc_le_D Suc_le_mono numeral_3_eq_3)
  have "dropWhile (\<lambda>c. c = nl) b = b"
    using assms(2) by (cases b) auto
  then have "dropWhile (\<lambda>c. c = nl) (replicate j nl @ b) = b"
    by (induction j) simp_all
  then show ?thesis using k by (simp add: collapse_run)
qed

lemma collapse_inner_run:
  assumes "3 \<le> k" "c \<noteq> nl" "\<not> prefix [nl] b"
  shows "collapse (a @ [c] @ replicate k nl @ b) = collapse (a @ [c]) @ [nl, nl] @ collapse b"
  using assms collapse_split [of c a "replicate k nl @ b"] collapse_split [of c a "[]"]
  by (simp add: collapse_leading_run)

lemma rstrip_line: "\<not> is_space c \<Longrightarrow> rstrip (x @ [c, nl]) = x @ [c]"
  by (simp add: rstrip_def is_space_def)

lemma record_inst_nonempty:
  "(fst st \<noteq> [] \<longrightarrow> snd st \<noteq> {}) \<Longrightarrow> fst (record_inst m st) \<noteq> [] \<longrightarrow> snd (record_inst m st) \<noteq> {}"
  by (cases m; cases st) (auto simp: record_inst_def split: option.splits)

lemma fold_record_inst_nonempty:
  "(fst st \<noteq> [] \<longrightarrow> snd st \<noteq> {}) \<Longrightarrow>
   fst (fold record_inst ms st) \<noteq> [] \<longrightarrow> snd (fold record_inst ms st) \<noteq> {}"
proof (induction ms arbitrary: st)
  case Nil
  then show ?case by simp
next
  case (Cons m ms)
  then show ?case using record_inst_nonempty [of st m] by simp
qed

lemma scan_insts_nonempty: "scan_insts s = (vts, ug) \<Longrightarrow> vts \<noteq> [] \<Longrightarrow> ug \<noteq> {}"
  using fold_record_inst_nonempty [of "([], {})" "re_finditer inst_match s"]
  by (simp add: scan_insts_def)

lemma getter_import_rstrip:
  "rstrip (getter_import ug) =
   ''import { '' @ join '', '' (sorted_list_of_set ug) @ '' } '' @ lib_services @ '';''"
proof -
  let ?P = "''import { '' @ join '', '' (sorted_list_of_set ug) @ '' } '' @ lib_services"
  have 1: "getter_import ug = ?P @ [CHR '';'', nl]"
    by (simp add: getter_import_def)
  have 2: "rstrip (?P @ [CHR '';'', nl]) = ?P @ [CHR '';'']"
    by (rule rstrip_line) (simp add: is_space_def)
  show ?thesis unfolding 1 2 by simp
qed

lemma lazy_processed:
  assumes "lazy_rewrite s = Processed out"
  obtains vts ug where "\<not> lazy_guard s" "scan_insts s = (vts, ug)" "vts \<noteq> []" "ug \<noteq> {}"
    "out = collapse (insert_import (rstrip (getter_import ug))
             (prune_imports vts (remove_insts (replace_calls vts s))))"
proof -
  obtain vts ug where sc: "scan_insts s = (vts, ug)" by (cases "scan_insts s")
  have g: "\<not> lazy_guard s" and v: "vts \<noteq> []"
    using assms sc by (auto simp: lazy_rewrite_def split: if_splits)
  have u: "ug \<noteq> {}" using sc v by (rule scan_insts_nonempty)
  have "out = collapse (insert_import (rstrip (getter_import ug))
             (prune_imports vts (remove_insts (replace_calls vts s))))"
    using assms sc g v u by (simp add: lazy_rewrite_def add_getter_import_def)
  then show ?thesis using that g sc v u by blast
qed

lemma lazy_processed_guard:
  assumes "lazy_rewrite s = Processed out"
  shows "lazy_guard out"
proof -
  from assms obtain vts ug where
    out: "out = collapse (insert_import (rstrip (getter_import ug))
             (prune_imports vts (remove_insts (replace_calls vts s))))"
    by (rule lazy_processed)
  have "sublist lib_services (rstrip (getter_import ug))"
    unfolding getter_import_rstrip
    by (metis append.assoc sublist_appendI)
  then have "sublist lib_services (insert_import (rstrip (getter_import ug))
             (prune_imports vts (remove_insts (replace_calls vts s))))"
    using sublist_insert_import_stmt sublist_order.order.trans by blast
  then show ?thesis
    unfolding out lazy_guard_def by (rule sublist_collapse_mono [OF nl_free(7)])
qed

lemma lazy_text_idem: "lazy_text (lazy_text s) = lazy_text s"
proof (cases "lazy_rewrite s")
  case Already_migrated
  then show ?thesis by (simp add: lazy_text_def)
next
  case Nothing_found
  then show ?thesis by (simp add: lazy_text_def)
next
  case (Processed out)
  then have "lazy_guard out" by (rule lazy_processed_guard)
  then have "lazy_rewrite out = Already_migrated" by (simp add: lazy_rewrite_def)
  then show ?thesis using Processed by (simp add: lazy_text_def)
qed

lemma prisma_guard_idem: "prisma_guard (prisma_text s) \<Longrightarrow> prisma_text (prisma_text s) = prisma_text s"
  by (simp add: prisma_text_def [of "prisma_text s"] prisma_rewrite_def)

lemma database_sq_insert: "sublist database_sq (insert_import prisma_import_line c)"
proof -
  have "sublist database_sq prisma_import_line"
    unfolding prisma_import_line_def by (metis sublist_appendI)
  then show ?thesis using sublist_insert_import_stmt sublist_order.order.trans by blast
qed

lemma occurs_collapse:
  assumes "occurs from_client_pat (collapse s)"
  shows "occurs from_client_pat s"
proof -
  from assms obtain v where v: "v \<in> set (expand from_client_pat)" and sub: "sublist v (collapse s)"
    by (auto simp: occurs_expand)
  have "nl \<notin> set v \<and> v \<noteq> []" using v by (auto simp: expand_from_client)
  then have "sublist v s" using sub sublist_collapse_refl by blast
  then show ?thesis using v by (auto simp: occurs_expand)
qed

lemma prisma_text_idem:
  assumes "\<not> (sublist import_prisma s \<and> has_require s \<and> \<not> occurs from_client_pat s \<and> \<not> prisma_guard s)"
  shows "prisma_text (prisma_text s) = prisma_text s"
proof (cases "prisma_guard s")
  case True
  then show ?thesis by (simp add: prisma_text_def prisma_rewrite_def)
next
  case guard: False
  have db: "nl \<notin> set database_sq" "database_sq \<noteq> []" "nl \<notin> set database_dq" "database_dq \<noteq> []"
    by (simp_all add: database_sq_def database_dq_def)
  show ?thesis
  proof (cases "occurs from_client_pat s")
    case True
    then have "sublist database_sq (replace_from s)"
      unfolding replace_from_def by (rule occurs_sublist_repl [OF pats_nonempty(1)])
    then have "sublist database_sq (prisma_text s)"
      using prisma_text_keeps [OF guard db(1,2) apart_new_client] by blast
    then show ?thesis by (simp add: prisma_guard_idem prisma_guard_def)
  next
    case noocc: False
    then have rf: "replace_from s = s" by (simp add: replace_from_def not_occurs_id)
    show ?thesis
    proof (cases "has_require s")
      case True
      then have "replace_require s =
          sub_fixed new_client_pat ''prisma'' (insert_import prisma_import_line s)"
        using assms guard noocc by (simp add: replace_require_def)
      then have "sublist database_sq (replace_require s)"
        using database_sq_insert sublist_sub_fixed [OF pats_nonempty(2) apart_new_client] by simp
      then have "sublist database_sq (prisma_text s)"
        using guard rf db by (simp add: prisma_text_def prisma_rewrite_def sublist_collapse_mono)
      then show ?thesis by (simp add: prisma_guard_idem prisma_guard_def)
    next
      case False
      then have out: "prisma_text s = collapse s"
        using guard rf by (simp add: prisma_text_def prisma_rewrite_def replace_require_def)
      have g2: "\<not> prisma_guard (collapse s)"
        using guard db sublist_collapse_refl unfolding prisma_guard_def by blast
      have "\<not> occurs from_client_pat (collapse s)"
        using noocc occurs_collapse by blast
      then have rf2: "replace_from (collapse s) = collapse s"
        by (simp add: replace_from_def not_occurs_id)
      have "\<not> has_require (collapse s)"
        using False sublist_collapse_refl [OF nl_free(3)] sublist_collapse_refl [OF nl_free(4)]
        unfolding has_require_def by (auto simp: require_sq_def require_dq_def)
      then have "prisma_text (collapse s) = collapse (collapse s)"
        using g2 rf2 by (simp add: prisma_text_def prisma_rewrite_def replace_require_def)
      then show ?thesis using out by (simp add: collapse_idem)
    qed
  qed
qed

subsection \<open>What step 1 records\<close>

lemma record_inst_mapped:
  "mapped (v, c) \<Longrightarrow> record_inst (v, c) (vts, ug) = (AList.update v c vts, insert (the (SERVICE_GETTERS c)) ug)"
  by (auto simp: record_inst_def mapped_def)

lemma record_inst_unmapped: "\<not> mapped m \<Longrightarrow> record_inst m st = st"
  by (cases m; cases st) (auto simp: record_inst_def mapped_def)

lemma fold_record_inst_getters:
  "snd (fold record_inst ms st) = snd st \<union> (\<lambda>m. the (SERVICE_GETTERS (snd m))) ` {m \<in> set ms. mapped m}"
proof (induction ms arbitrary: st)
  case Nil
  then show ?case by simp
next
  case (Cons m ms)
  obtain v c vts ug where m: "m = (v, c)" and st: "st = (vts, ug)" by (cases m; cases st) auto
  show ?case
  proof (cases "mapped m")
    case True
    then have "{x \<in> set (m # ms). mapped x} = insert m {x \<in> set ms. mapped x}"
      by auto
    then show ?thesis using True Cons [of "record_inst m st"] m st record_inst_mapped [of v c vts ug]
      by simp
  next
    case False
    then show ?thesis using Cons [of st] by (auto simp: record_inst_unmapped)
  qed
qed

lemma fold_record_inst_vars:
  "map_of (fst (fold record_inst ms st)) = map_of (rev (filter mapped ms) @ fst st)
   \<and> (distinct (map fst (fst st)) \<longrightarrow> distinct (map fst (fst (fold record_inst ms st))))"
proof (induction ms arbitrary: st)
  case Nil
  then show ?case by simp
next
  case (Cons m ms)
  obtain v c vts ug where m: "m = (v, c)" and st: "st = (vts, ug)" by (cases m; cases st) auto
  show ?case
  proof (cases "mapped m")
    case True
    then have r: "record_inst m st = (AList.update v c vts, insert (the (SERVICE_GETTERS c)) ug)"
      using m st record_inst_mapped by simp
    have "map_of (AList.update v c vts) = map_of ((v, c) # vts)"
      by (simp add: update_conv')
    then have "map_of (rev (filter mapped ms) @ AList.update v c vts) =
               map_of (rev (filter mapped ms) @ (v, c) # vts)"
      by simp
    then show ?thesis using Cons [of "record_inst m st"] r True m st
      by (simp add: distinct_update)
  next
    case False
    then show ?thesis using Cons [of st] by (simp add: record_inst_unmapped)
  qed
qed

lemma scan_insts_getters:
  "scan_insts s = (vts, ug) \<Longrightarrow>
   ug = (\<lambda>m. the (SERVICE_GETTERS (snd m))) ` {m \<in> set (re_finditer inst_match s). mapped m}"
  using fold_record_inst_getters [of "re_finditer inst_match s" "([], {})"]
  by (simp add: scan_insts_def)

lemma scan_insts_vars:
  assumes "scan_insts s = (vts, ug)"
  shows "map_of vts = map_of (rev (filter mapped (re_finditer inst_match s)))"
    and "distinct (map fst vts)"
  using assms fold_record_inst_vars [of "re_finditer inst_match s" "([], {})"]
  by (simp_all add: scan_insts_def)

lemma scan_insts_finite:
  assumes "scan_insts s = (vts, ug)"
  shows "finite ug"
proof -
  have "finite {m \<in> set (re_finditer inst_match s). mapped m}" by simp
  then show ?thesis unfolding scan_insts_getters [OF assms] by (rule finite_imageI)
qed

lemma scan_insts_empty: "scan_insts s = (vts, ug) \<Longrightarrow> ug \<noteq> {} \<Longrightarrow> vts \<noteq> []"
proof -
  assume a: "scan_insts s = (vts, ug)" "ug \<noteq> {}"
  then obtain m where "m \<in> set (re_finditer inst_match s)" "mapped m"
    using scan_insts_getters by blast
  then have "filter mapped (re_finditer inst_match s) \<noteq> []"
    by (auto simp: filter_empty_conv)
  then have "map_of (rev (filter mapped (re_finditer inst_match s))) \<noteq> Map.empty"
    by (metis map_of_eq_empty_iff rev_is_Nil_conv)
  then show ?thesis using scan_insts_vars(1) [OF a(1)] by auto
qed

lemma getter_values_plain:
  "SERVICE_GETTERS c = Some g \<Longrightarrow> nl \<notin> set g \<and> list_all is_word g"
  by (auto simp: SERVICE_GETTERS_def is_word_def split: if_splits)

lemma scan_insts_getters_plain:
  assumes "scan_insts s = (vts, ug)" "g \<in> ug"
  shows "nl \<notin> set g"
proof -
  from assms obtain m where "mapped m" "g = the (SERVICE_GETTERS (snd m))"
    using scan_insts_getters by blast
  then show ?thesis using getter_values_plain by (auto simp: mapped_def)
qed

lemma set_join: "set (join sep xs) \<subseteq> set sep \<union> \<Union> (set ` set xs)"
  by (induction sep xs rule: join.induct) auto

lemma split_on_plain: "sep \<notin> set s \<Longrightarrow> split_on sep s = [s]"
  by (induction s) auto

lemma split_on_append:
  "sep \<notin> set l \<Longrightarrow> split_on sep (l @ sep # t) = l # split_on sep t"
  by (induction l) auto

lemma split_join:
  "ls \<noteq> [] \<Longrightarrow> (\<And>l. l \<in> set ls \<Longrightarrow> sep \<notin> set l) \<Longrightarrow> split_on sep (join [sep] ls) = ls"
proof (induction ls)
  case Nil
  then show ?case by simp
next
  case (Cons x xs)
  show ?case
  proof (cases "xs = []")
    case True
    then show ?thesis using Cons.prems by (simp add: split_on_plain)
  next
    case False
    then have "join [sep] (x # xs) = x @ sep # join [sep] xs" by (simp add: join_Cons)
    then show ?thesis using Cons False by (simp add: split_on_append)
  qed
qed

lemma split_on_lines_plain: "l \<in> set (split_on sep s) \<Longrightarrow> sep \<notin> set l"
proof (induction s arbitrary: l)
  case Nil
  then show ?case by simp
next
  case (Cons c cs)
  then show ?case
    by (cases "split_on sep cs") (auto split: if_splits)
qed

lemma split_insert_import:
  assumes "nl \<notin> set stmt"
  shows "split_on nl (insert_import stmt content) =
         list_insert (insert_idx (split_on nl content)) stmt (split_on nl content)"
  unfolding insert_import_def Let_def
proof (rule split_join)
  show "list_insert (insert_idx (split_on nl content)) stmt (split_on nl content) \<noteq> []"
    by (simp add: list_insert_def)
  show "nl \<notin> set l"
    if "l \<in> set (list_insert (insert_idx (split_on nl content)) stmt (split_on nl content))" for l
    using that assms split_on_lines_plain by auto
qed

subsection \<open>The call-site pattern\<close>

lemma lit_Some_iff: "lit p s = Some r \<longleftrightarrow> s = p @ r"
  by (induction p s rule: lit.induct) auto

lemma span_iff:
  "takeWhile P xs = m \<and> dropWhile P xs = r \<longleftrightarrow>
   xs = m @ r \<and> list_all P m \<and> (r = [] \<or> \<not> P (hd r))"
proof
  assume "takeWhile P xs = m \<and> dropWhile P xs = r"
  then show "xs = m @ r \<and> list_all P m \<and> (r = [] \<or> \<not> P (hd r))"
    by (metis hd_dropWhile list_all_iff set_takeWhileD takeWhile_dropWhile_id)
next
  assume a: "xs = m @ r \<and> list_all P m \<and> (r = [] \<or> \<not> P (hd r))"
  then have "takeWhile P (m @ r) = m" "dropWhile P (m @ r) = r"
    by (cases r; auto simp: list_all_iff takeWhile_append2 dropWhile_append2)+
  then show "takeWhile P xs = m \<and> dropWhile P xs = r" using a by simp
qed

lemma many1_Some_iff:
  "many1 P s = Some (m, r) \<longleftrightarrow> s = m @ r \<and> m \<noteq> [] \<and> list_all P m \<and> (r = [] \<or> \<not> P (hd r))"
  using span_iff [of P s m r] by (auto simp: many1_def)

lemma call_match_Some_iff:
  "call_match v pw s = Some (m, r) \<longleftrightarrow>
     pw \<noteq> (s \<noteq> [] \<and> is_word (hd s)) \<and> s = v @ ''.'' @ m @ r \<and> m \<noteq> [] \<and> list_all is_word m
     \<and> (r = [] \<or> \<not> is_word (hd r))"
proof -
  have b: "(case s of [] \<Rightarrow> False | c # x \<Rightarrow> is_word c) = (s \<noteq> [] \<and> is_word (hd s))"
    by (cases s) auto
  show ?thesis
    unfolding call_match_def b
    by (auto simp: lit_Some_iff many1_Some_iff bind_eq_Some_conv)
qed

lemma sub_call_Nil [simp]: "sub_call v g pw [] = []"
  by simp








subsection \<open>The matches of the instantiation pattern and the loop of step 2\<close>










subsection \<open>Every match consumes at least one character\<close>

text \<open>
  The scans test the length of the text after a match before they go on. For every
  pattern of the two scripts the test succeeds: the branch that treats a match without
  progress as no match is never taken.
\<close>

lemma lit_length: "lit p s = Some r \<Longrightarrow> length s = length p + length r"
  by (simp add: lit_Some_iff)

lemma many1_length: "many1 P s = Some (m, r) \<Longrightarrow> length r < length s"
  by (auto simp: many1_Some_iff)

lemma many0_length: "length (many0 P s) \<le> length s"
  by (simp add: many0_def length_dropWhile_le)

lemma opt_lit_length: "length (opt_lit p s) \<le> length s"
  by (auto simp: opt_lit_def lit_Some_iff split: option.splits)

lemma blank_run_progress: "blank_run s = Some (r, rest) \<Longrightarrow> length rest < length s"
  by (auto simp: blank_run_Some length_dropWhile_le less_Suc_eq_le le_SucI)

lemma fixed_progress: "pat \<noteq> [] \<Longrightarrow> fixed pat s = Some rest \<Longrightarrow> length rest < length s"
  by (cases pat) (auto simp: fixed_Some_iff)

lemma call_match_progress: "call_match v pw s = Some (m, rest) \<Longrightarrow> length rest < length s"
  by (auto simp: call_match_Some_iff)

lemma inst_match_progress:
  assumes "inst_match s = Some (g, rest)"
  shows "length rest < length s"
  using assms many0_length [of is_space] opt_lit_length [of "'';''"]
  unfolding inst_match_def
  apply (clarsimp simp: bind_eq_Some_conv split: if_splits dest!: many1_length lit_length)
  subgoal premises p for y b aa ba ya yb bb ac bc yc
    using p(1) [of ba] p(1) [of ya] p(2) [of yc] p(3-) by linarith
  done

lemma import_match_progress:
  assumes "import_match s = Some (imports, rest)"
  shows "length rest < length s"
  using assms many0_length [of is_space]
  unfolding import_match_def
  apply (clarsimp simp: bind_eq_Some_conv dest!: many1_length lit_length)
  subgoal premises p for y ya b yb yc
    using p(1) [of y] p(1) [of yb] p(1) [of yc] p(2-) by linarith
  done

subsection \<open>The matchers on sample texts\<close>

text \<open>
  The class before \<open>Service\<close> must not be empty; the run of word characters must end
  with \<open>Service\<close>; \<open>new\<close> needs white space after it; the pattern is not anchored at a
  word boundary.
\<close>

lemma inst_match_samples:
  "inst_match ''const a = new Service();'' = None"
  "inst_match (''const a  =new'' @ [CHR 0x09] @ ''FooServiceService()x'') =
     Some ((''a'', ''FooServiceService''), ''x'')"
  "inst_match ''const a = new FooServiceBar();'' = None"
  "inst_match ''const a = newAService()'' = None"
  "re_finditer inst_match ''myconst a=new  AService();;'' = [(''a'', ''AService'')]"
  by code_simp+

text \<open>
  The call-site pattern needs a word boundary before the name and a member after the dot,
  and its matches do not overlap.
\<close>

lemma sub_call_sample:
  "sub_call ''a'' ''G'' False ''a.a.b xa.b a.b.a.c a. a.b_1() _a.b (a.b)'' =
     ''G().a.b xa.b G().b.G().c a. G().b_1() _a.b (G().b)''"
  by code_simp

lemma import_match_samples:
  "import_match (''import{ A,B }from'' @ [sq] @ ''@midcurve/services'' @ [sq] @ '';x'') = Some ('' A,B '', ''x'')"
  "import_match (''import {} from '' @ [sq] @ ''@midcurve/services'' @ [sq] @ '';'') = None"
  "import_match (''import { X } from '' @ [sq] @ ''@midcurve/services'' @ [sq]) = None"
  by code_simp+

section \<open>Writing back (C9)\<close>

text \<open>
  C9. For a file that exists, each script's \<open>fix_file\<close> returns the flag "the
  transformed text differs from the original content"; when the flag is true the file
  system afterwards holds the transformed text at that path and is unchanged at every
  other path; when the flag is false the file system is the one before the call.
\<close>

theorem fix_file_flag_and_write:
  assumes "fs filepath = Some original"
  shows "lazy_fix_file fs filepath =
           Some (lazy_text original \<noteq> original,
                 if lazy_text original \<noteq> original then fs(filepath \<mapsto> lazy_text original) else fs)
       \<and> prisma_fix_file fs filepath =
           Some (prisma_text original \<noteq> original,
                 if prisma_text original \<noteq> original then fs(filepath \<mapsto> prisma_text original) else fs)"
  using assms
  by (simp add: lazy_fix_file_def prisma_fix_file_def lazy_text_def prisma_text_def write_back_def
      split: outcome.splits option.splits)

theorem fix_file_flag_and_write_witness:
  "lazy_fix_file [''route.ts'' \<mapsto> ''const s = new AuthUserService();''] ''route.ts'' =
     Some (True, [''route.ts'' \<mapsto> ''import { getAuthUserService } from '' @ [sq] @ ''@/lib/services'' @ [sq] @ '';'' @ [nl]])
   \<and> prisma_fix_file [''a.ts'' \<mapsto> ''let x;''] ''a.ts'' = Some (False, [''a.ts'' \<mapsto> ''let x;''])"
proof -
  have l: "lazy_text ''const s = new AuthUserService();'' =
      ''import { getAuthUserService } from '' @ [sq] @ ''@/lib/services'' @ [sq] @ '';'' @ [nl]"
    by code_simp
  have p: "prisma_text ''let x;'' = ''let x;''"
    by code_simp
  show ?thesis
    using fix_file_flag_and_write [of "[''route.ts'' \<mapsto> ''const s = new AuthUserService();'']"
        "''route.ts''" "''const s = new AuthUserService();''"]
      fix_file_flag_and_write [of "[''a.ts'' \<mapsto> ''let x;'']" "''a.ts''" "''let x;''"]
    by (simp add: l p)
qed

section \<open>Instantiations of classes outside the mapping (C1)\<close>

text \<open>
  C1. A file that instantiates a mapped class and an unmapped one: step 3 removes every
  match of the instantiation pattern, so the line \<open>const b = new FooService();\<close> is
  deleted too, while the import of \<open>FooService\<close> and the call \<open>b.y()\<close> stay.
\<close>

theorem unmapped_instantiation_deleted:
  "SERVICE_GETTERS ''FooService'' = None
   \<and> sublist ''const b = new FooService();'' mixed_route
   \<and> lazy_text mixed_route =
       ''import { FooService } from '' @ [sq] @ ''@midcurve/services'' @ [sq] @ '';'' @ [nl]
       @ ''import { getAuthUserService } from '' @ [sq] @ ''@/lib/services'' @ [sq] @ '';'' @ [nl, nl]
       @ ''getAuthUserService().x();'' @ [nl]
       @ ''b.y();'' @ [nl]
   \<and> \<not> sublist ''const b = new FooService();'' (lazy_text mixed_route)"
  by code_simp

section \<open>The import-from clauses of the legacy client (C7)\<close>

lemma example3_replace_from:
  assumes "sublist example3_in s"
  shows "sublist example3_out (replace_from s)"
proof -
  let ?pre = "''import { PrismaClient } ''"
  let ?v = "''from '' @ [sq] @ ''@prisma/client'' @ [sq]"
  from assms obtain a b where "s = a @ example3_in @ b"
    by (auto simp: sublist_def)
  then have s: "s = (a @ ?pre) @ ?v @ ('';'' @ b)"
    by (simp add: example3_in_def)
  have ap: "apart from_client_pat ?pre"
    by (simp add: apart_def no_left_overlap_def from_client_pat_def chars_def quotes_def)
  have "replace_from s = replace_from (a @ ?pre) @ database_sq @ replace_from ('';'' @ b)"
    unfolding s using from_client_occurrence [of sq sq "a @ ?pre" "'';'' @ b"]
    by (simp add: quotes_def)
  moreover have "replace_from (a @ ?pre @ []) = replace_from a @ ?pre @ replace_from []"
    unfolding replace_from_def by (rule sub_fixed_apart [OF pats_nonempty(1) ap])
  moreover have "replace_from ('';'' @ b) = '';'' @ replace_from b"
    unfolding replace_from_def
    by (rule sub_fixed_inner) (simp add: from_client_pat_def chars_def)
  ultimately have "replace_from s = replace_from a @ example3_out @ replace_from b"
    by (simp add: example3_out_def database_sq_def replace_from_def)
  then show ?thesis by (metis sublist_appendI)
qed

text \<open>
  C7. When the guard does not stop the rewrite, the output is the normalised result of
  pattern 2 applied to the result of pattern 1; pattern 1 turns every clause
  \<open>from Q@prisma/clientQ'\<close>, for quotes \<open>Q\<close> and \<open>Q'\<close>, into
  \<open>from '@midcurve/database'\<close> and rewrites the text before and after it on its own;
  no such clause is left after pattern 1; an input with such a clause yields an output
  that contains \<open>from '@midcurve/database'\<close>; and an input that contains the import
  of Example 3 yields an output that contains the import of Example 3's output.
\<close>

theorem import_from_clauses_replaced:
  assumes "\<not> prisma_guard s"
  shows "prisma_text s = collapse (replace_require (replace_from s))
    \<and> (\<forall>q1 q2 a b. q1 \<in> set quotes \<and> q2 \<in> set quotes \<longrightarrow>
          replace_from (a @ ''from '' @ [q1] @ ''@prisma/client'' @ [q2] @ b) =
          replace_from a @ database_sq @ replace_from b)
    \<and> \<not> occurs from_client_pat (replace_from s)
    \<and> (occurs from_client_pat s \<longrightarrow> sublist database_sq (prisma_text s))
    \<and> (sublist example3_in s \<longrightarrow> sublist example3_out (prisma_text s))"
proof -
  have "prisma_text s = collapse (replace_require (replace_from s))"
    using assms by (simp add: prisma_text_def prisma_rewrite_def)
  moreover have "sublist database_sq (prisma_text s)" if "occurs from_client_pat s"
  proof (rule prisma_text_keeps [OF assms _ _ apart_new_client])
    show "nl \<notin> set database_sq" "database_sq \<noteq> []"
      by (simp_all add: database_sq_def)
    show "sublist database_sq (replace_from s)"
      unfolding replace_from_def using that by (rule occurs_sublist_repl [OF pats_nonempty(1)])
  qed
  moreover have "sublist example3_out (prisma_text s)" if "sublist example3_in s"
  proof (rule prisma_text_keeps [OF assms])
    show "nl \<notin> set example3_out" "example3_out \<noteq> []"
      by (simp_all add: example3_out_def)
    show "apart new_client_pat example3_out"
      by (simp add: apart_def no_left_overlap_def new_client_pat_def chars_def quotes_def
          example3_out_def)
    show "sublist example3_out (replace_from s)"
      using that by (rule example3_replace_from)
  qed
  ultimately show ?thesis
    using from_client_occurrence replace_from_complete by blast
qed

theorem import_from_clauses_replaced_witness:
  "\<not> prisma_guard example3_in \<and> sublist example3_in example3_in
   \<and> sublist example3_out (prisma_text example3_in)
   \<and> prisma_text example3_in = example3_out"
proof -
  have g: "\<not> prisma_guard example3_in" by code_simp
  have e: "prisma_text example3_in = example3_out" by code_simp
  have "sublist example3_out (prisma_text example3_in)"
    using import_from_clauses_replaced [OF g] by blast
  then show ?thesis using g e by simp
qed

section \<open>The dynamic require of the client (C6, C10)\<close>

text \<open>
  C6. On the input of Example 4 the rewrite produces the output of Example 4. On a file
  that imports \<open>prismaMock\<close> and constructs the client by the dynamic require, the
  expression becomes \<open>prisma\<close> and no import of \<open>prisma\<close> is inserted, although the
  file has none.
\<close>

theorem singleton_import_missing:
  "prisma_text example4_in = example4_out
   \<and> \<not> prisma_guard mock_file \<and> has_require mock_file
   \<and> \<not> sublist prisma_import_line mock_file
   \<and> prisma_text mock_file = mock_file_out
   \<and> \<not> sublist prisma_import_line (prisma_text mock_file)"
  by code_simp

text \<open>
  C10, as stated, fails on a file that the guard stops: \<open>guarded_file\<close> contains the
  dynamic require and \<open>import { prisma\<close>, and the rewrite returns it unchanged, the
  expression still in it.
\<close>

theorem guard_keeps_require_counterexample:
  "has_require guarded_file \<and> sublist import_prisma guarded_file
   \<and> prisma_guard guarded_file
   \<and> prisma_text guarded_file = guarded_file
   \<and> sublist new_client_sq (prisma_text guarded_file)"
  by code_simp

text \<open>
  C10, amended. When the guard does not stop the rewrite and the input contains the dynamic
  require and the text \<open>import { prisma\<close> anywhere, the output is the normalised result
  of replacing the expression in the result of pattern 1, a text with as many lines as the
  input: no import line is inserted. The replacement turns each occurrence of the
  expression, with either quote on either side, into \<open>prisma\<close> and rewrites the text
  before and after it on its own; so an input \<open>a @ expression @ b\<close> yields the
  normalised form of the rewritten \<open>a\<close>, \<open>prisma\<close> and the rewritten \<open>b\<close>.
\<close>

theorem import_suppressed_by_substring:
  assumes "\<not> prisma_guard s" "has_require s" "sublist import_prisma s"
  shows "prisma_text s = collapse (sub_fixed new_client_pat ''prisma'' (replace_from s))
    \<and> length (split_on nl (sub_fixed new_client_pat ''prisma'' (replace_from s))) = length (split_on nl s)
    \<and> (\<forall>q1 q2 a b. (q1 = sq \<or> q1 = dq) \<and> (q2 = sq \<or> q2 = dq) \<longrightarrow>
          sub_fixed new_client_pat ''prisma'' (a @ new_client_expr q1 q2 @ b) =
          sub_fixed new_client_pat ''prisma'' a @ ''prisma'' @ sub_fixed new_client_pat ''prisma'' b)
    \<and> (\<forall>q1 q2 a b. (q1 = sq \<or> q1 = dq) \<and> (q2 = sq \<or> q2 = dq)
          \<and> s = a @ new_client_expr q1 q2 @ b \<longrightarrow>
          prisma_text s = collapse (sub_fixed new_client_pat ''prisma'' (replace_from a) @ ''prisma''
                                    @ sub_fixed new_client_pat ''prisma'' (replace_from b)))"
proof -
  have out: "prisma_text s = collapse (sub_fixed new_client_pat ''prisma'' (replace_from s))"
    using assms has_require_replace_from import_prisma_replace_from
    by (simp add: prisma_text_def prisma_rewrite_def replace_require_def)
  have lines: "length (split_on nl (sub_fixed new_client_pat ''prisma'' (replace_from s))) = length (split_on nl s)"
    by (simp add: lines_replace_from lines_sub_new_client)
  have whole: "prisma_text s = collapse (sub_fixed new_client_pat ''prisma'' (replace_from a) @ ''prisma''
                                    @ sub_fixed new_client_pat ''prisma'' (replace_from b))"
    if q: "q1 = sq \<or> q1 = dq" "q2 = sq \<or> q2 = dq" and s: "s = a @ new_client_expr q1 q2 @ b"
    for q1 q2 a b
  proof -
    have "replace_from s = replace_from a @ new_client_expr q1 q2 @ replace_from b"
      unfolding s by (rule replace_from_new_client [OF q])
    then show ?thesis
      using out new_client_expr_occurrence [OF q, of "replace_from a" "replace_from b"] by simp
  qed
  show ?thesis
    using out lines new_client_expr_occurrence whole by blast
qed

theorem import_suppressed_by_substring_witness:
  "\<not> prisma_guard mock_file \<and> has_require mock_file \<and> sublist import_prisma mock_file
   \<and> \<not> sublist prisma_import_line mock_file
   \<and> mock_file = (''import { prismaMock } from '' @ [sq] @ ''./mock'' @ [sq] @ '';'' @ [nl] @ ''const client = '')
                   @ new_client_expr sq sq @ ('';'' @ [nl])
   \<and> prisma_text mock_file = mock_file_out
   \<and> sublist ''const client = prisma;'' (prisma_text mock_file)
   \<and> \<not> sublist prisma_import_line (prisma_text mock_file)
   \<and> length (split_on nl mock_file_out) = length (split_on nl mock_file)"
proof -
  have h: "\<not> prisma_guard mock_file" "has_require mock_file" "sublist import_prisma mock_file"
    by code_simp+
  have e: "collapse (sub_fixed new_client_pat ''prisma'' (replace_from mock_file)) = mock_file_out"
    by code_simp
  have o: "\<not> sublist prisma_import_line mock_file" "sublist ''const client = prisma;'' mock_file_out"
    "\<not> sublist prisma_import_line mock_file_out"
    "length (split_on nl mock_file_out) = length (split_on nl mock_file)"
    "mock_file = (''import { prismaMock } from '' @ [sq] @ ''./mock'' @ [sq] @ '';'' @ [nl] @ ''const client = '')
                   @ new_client_expr sq sq @ ('';'' @ [nl])"
    by code_simp+
  have "prisma_text mock_file = mock_file_out"
    using import_suppressed_by_substring [OF h] e by simp
  then show ?thesis using h o by simp
qed

section \<open>Running a rewrite twice (C2)\<close>

text \<open>
  C2. The service rewrite applied twice gives what it gives applied once, on every text
  (\<open>lazy_text_idem\<close>), and so does the import rewrite on every text except where the
  guard does not hold, no import-from clause of the legacy client occurs, the dynamic
  require occurs and the text \<open>import { prisma\<close> occurs (\<open>prisma_text_idem\<close>). There
  the test \<open>"import { prisma" not in content\<close> skips the insertion of the import, so
  the output of the first pass lacks the import that the guard looks for. In
  \<open>nested_text\<close> the first pass inserts nothing and replaces the expression in the
  comment, which forms the clause \<open>from '@prisma/client'\<close>; the guard does not stop
  the second pass, which rewrites that clause.
\<close>

theorem second_pass_rewrites_again:
  "\<not> prisma_guard nested_text \<and> has_require nested_text
   \<and> sublist import_prisma nested_text \<and> \<not> sublist prisma_import_line nested_text
   \<and> prisma_text nested_text =
       ''import { prismaMock } from '' @ [sq] @ ''./mock'' @ [sq] @ '';'' @ [nl]
       @ ''// from '' @ [sq] @ ''@prisma/client'' @ [sq] @ [nl]
   \<and> \<not> prisma_guard (prisma_text nested_text)
   \<and> prisma_text (prisma_text nested_text) =
       ''import { prismaMock } from '' @ [sq] @ ''./mock'' @ [sq] @ '';'' @ [nl]
       @ ''// from '' @ [sq] @ ''@midcurve/database'' @ [sq] @ [nl]
   \<and> prisma_text (prisma_text nested_text) \<noteq> prisma_text nested_text"
  by code_simp

section \<open>Runs of blank lines (C8)\<close>

text \<open>
  C8, as stated, fails at the start of a text: four empty lines before \<open>x\<close> become two
  empty lines, not one.
\<close>

theorem leading_blank_lines_counterexample:
  "split_on nl (nl # nl # nl # nl # ''x'') = [[], [], [], [], ''x'']
   \<and> split_on nl (prisma_text (nl # nl # nl # nl # ''x'')) = [[], [], ''x'']"
  by code_simp

text \<open>
  C8, amended. An output that went through the normalisation step of either script has no
  three newlines in a row. The step replaces a run of three or more newlines by two: a run
  that follows a character other than a newline leaves one blank line after that line, and
  a run at the start of the text leaves two empty lines.
\<close>

theorem blank_runs_collapsed:
  "(lazy_rewrite s = Processed out \<longrightarrow> \<not> sublist [nl, nl, nl] out)
   \<and> (prisma_rewrite s = Some out \<longrightarrow> \<not> sublist [nl, nl, nl] out)
   \<and> (3 \<le> k \<and> c \<noteq> nl \<and> \<not> prefix [nl] b \<longrightarrow>
        collapse (a @ [c] @ replicate k nl @ b) = collapse (a @ [c]) @ [nl, nl] @ collapse b)
   \<and> (3 \<le> k \<and> \<not> prefix [nl] b \<longrightarrow> collapse (replicate k nl @ b) = [nl, nl] @ collapse b)"
proof -
  have "\<not> sublist [nl, nl, nl] out" if "lazy_rewrite s = Processed out"
    using that collapse_no_run by (auto simp: lazy_rewrite_def split: if_splits prod.splits)
  moreover have "\<not> sublist [nl, nl, nl] out" if "prisma_rewrite s = Some out"
    using that collapse_no_run by (auto simp: prisma_rewrite_def split: if_splits)
  ultimately show ?thesis
    using collapse_inner_run collapse_leading_run by blast
qed

theorem blank_runs_collapsed_witness:
  "prisma_rewrite (''a'' @ replicate 4 nl @ ''b'') = Some (''a'' @ [nl, nl] @ ''b'')
   \<and> \<not> sublist [nl, nl, nl] (''a'' @ [nl, nl] @ ''b'')
   \<and> lazy_rewrite (''const s = new AuthUserService();'' @ replicate 4 nl @ ''s.f()'') =
       Processed (''import { getAuthUserService } '' @ lib_services @ '';'' @ [nl, nl] @ ''getAuthUserService().f()'')
   \<and> \<not> sublist [nl, nl, nl]
        (''import { getAuthUserService } '' @ lib_services @ '';'' @ [nl, nl] @ ''getAuthUserService().f()'')
   \<and> collapse ([] @ ''a'' @ replicate 4 nl @ ''b'') = collapse ([] @ ''a'') @ [nl, nl] @ collapse ''b''
   \<and> collapse (replicate 4 nl @ ''x'') = [nl, nl] @ collapse ''x''"
proof -
  have p: "prisma_rewrite (''a'' @ replicate 4 nl @ ''b'') = Some (''a'' @ [nl, nl] @ ''b'')"
    by code_simp
  have l: "lazy_rewrite (''const s = new AuthUserService();'' @ replicate 4 nl @ ''s.f()'') =
       Processed (''import { getAuthUserService } '' @ lib_services @ '';'' @ [nl, nl] @ ''getAuthUserService().f()'')"
    by code_simp
  have h: "(3::nat) \<le> 4" "CHR ''a'' \<noteq> nl" "\<not> prefix [nl] ''b''" "\<not> prefix [nl] ''x''"
    by simp_all
  show ?thesis
    using blank_runs_collapsed [of "''a'' @ replicate 4 nl @ ''b''" "''a'' @ [nl, nl] @ ''b''" 4 "CHR ''a''" "''b''" "[]"]
      blank_runs_collapsed [of "''const s = new AuthUserService();'' @ replicate 4 nl @ ''s.f()''"
        "''import { getAuthUserService } '' @ lib_services @ '';'' @ [nl, nl] @ ''getAuthUserService().f()''" 4 "CHR ''a''" "''x''" "[]"]
      p l h
    by (simp del: replicate.simps collapse_Nil add: numeral_eq_Suc)
qed

section \<open>The legacy import with a trailing comma (C4)\<close>

text \<open>
  C4. With the legacy import on one line, removing both names deletes the statement. With
  the multi-line import that ends in a comma, \<open>split(',')\<close> yields an empty last entry,
  \<open>remaining\<close> is not empty, and the statement is emitted again with an empty list.
\<close>

theorem trailing_comma_import_kept:
  "lazy_text single_line_route =
     ''import { getAuthNonceService, getAuthUserService } '' @ lib_services @ '';'' @ [nl, nl]
   \<and> remove_services {''AuthUserService'', ''AuthNonceService''}
       ([nl] @ ''  AuthUserService,'' @ [nl] @ ''  AuthNonceService,'' @ [nl]) =
     ''import {  } from '' @ [sq] @ ''@midcurve/services'' @ [sq] @ '';''
   \<and> lazy_text trailing_comma_route =
     ''import {  } from '' @ [sq] @ ''@midcurve/services'' @ [sq] @ '';'' @ [nl]
     @ ''import { getAuthNonceService, getAuthUserService } '' @ lib_services @ '';'' @ [nl, nl]"
  by code_simp

section \<open>The import of the getters (C5)\<close>

text \<open>
  C5. When the guard does not stop the rewrite and step 1 recorded a getter, the output is
  the normalised form of a text whose lines are the lines of the content after step 4 with
  one line added: the import of the used getters, sorted and without duplicates, from
  \<open>@/lib/services\<close>. It is added at index \<open>i\<close>, where no line from \<open>i\<close> on starts
  with \<open>import\<close> and a space and, unless \<open>i = 0\<close>, line \<open>i - 1\<close> does. The output
  contains the import.
\<close>

theorem getter_import_inserted:
  assumes "\<not> lazy_guard s" "scan_insts s = (vts, ug)" "ug \<noteq> {}"
    and "names = sorted_list_of_set ug"
    and "stmt = ''import { '' @ join '', '' names @ '' } from '' @ [sq] @ ''@/lib/services'' @ [sq] @ '';''"
    and "ls = split_on nl (prune_imports vts (remove_insts (replace_calls vts s)))"
    and "i = insert_idx ls"
  shows "sorted names \<and> distinct names \<and> set names = ug
    \<and> ug = (\<lambda>m. the (SERVICE_GETTERS (snd m))) ` {m \<in> set (re_finditer inst_match s). mapped m}
    \<and> i \<le> length ls
    \<and> (\<forall>j. i \<le> j \<and> j < length ls \<longrightarrow> \<not> prefix ''import '' (ls ! j))
    \<and> (0 < i \<longrightarrow> prefix ''import '' (ls ! (i - 1)))
    \<and> (\<exists>content. lazy_text s = collapse content
          \<and> split_on nl content = take i ls @ [stmt] @ drop i ls)
    \<and> sublist stmt (lazy_text s)"
proof -
  let ?c4 = "prune_imports vts (remove_insts (replace_calls vts s))"
  have fin: "finite ug" using assms(2) by (rule scan_insts_finite)
  have vts: "vts \<noteq> []" using assms(2,3) by (rule scan_insts_empty)
  have stmt: "stmt = rstrip (getter_import ug)"
    using assms(4,5) by (simp add: getter_import_rstrip lib_services_def)
  have "nl \<notin> set (join '', '' names)"
    using set_join [of "'', ''" names] scan_insts_getters_plain [OF assms(2)] fin assms(4)
    by auto
  then have plain: "nl \<notin> set stmt" using assms(5) by simp
  have out: "lazy_text s = collapse (insert_import stmt ?c4)"
    using assms(1,2,3) vts stmt by (simp add: lazy_text_def lazy_rewrite_def add_getter_import_def)
  have "split_on nl (insert_import stmt ?c4) = take i ls @ [stmt] @ drop i ls"
    using split_insert_import [OF plain] assms(6,7) by (simp add: list_insert_def)
  then have ex: "\<exists>content. lazy_text s = collapse content
      \<and> split_on nl content = take i ls @ [stmt] @ drop i ls"
    using out by blast
  have "sublist stmt (collapse (insert_import stmt ?c4))"
    using plain sublist_insert_import_stmt by (rule sublist_collapse_mono)
  then have sub: "sublist stmt (lazy_text s)" using out by simp
  have idx: "i \<le> length ls" "\<forall>j. i \<le> j \<and> j < length ls \<longrightarrow> \<not> prefix ''import '' (ls ! j)"
    "0 < i \<longrightarrow> prefix ''import '' (ls ! (i - 1))"
    using assms(7) insert_idx_le insert_idx_after insert_idx_last by auto
  have "sorted names \<and> distinct names \<and> set names = ug"
    using fin assms(4) by simp
  then show ?thesis
    using scan_insts_getters [OF assms(2)] idx ex sub by blast
qed

theorem getter_import_inserted_witness:
  "\<not> lazy_guard mixed_route
   \<and> scan_insts mixed_route = ([(''a'', ''AuthUserService'')], {''getAuthUserService''})
   \<and> sublist (''import { getAuthUserService } from '' @ [sq] @ ''@/lib/services'' @ [sq] @ '';'')
       (lazy_text mixed_route)
   \<and> insert_idx (split_on nl (prune_imports [(''a'', ''AuthUserService'')]
        (remove_insts (replace_calls [(''a'', ''AuthUserService'')] mixed_route)))) = 1"
proof -
  have g: "\<not> lazy_guard mixed_route" by code_simp
  have sc: "scan_insts mixed_route = ([(''a'', ''AuthUserService'')], {''getAuthUserService''})"
    by code_simp
  have ne: "{''getAuthUserService''} \<noteq> ({} :: string set)" by simp
  have n: "[''getAuthUserService''] = sorted_list_of_set {''getAuthUserService''}" by simp
  have i: "insert_idx (split_on nl (prune_imports [(''a'', ''AuthUserService'')]
        (remove_insts (replace_calls [(''a'', ''AuthUserService'')] mixed_route)))) = 1"
    by code_simp
  show ?thesis
    using getter_import_inserted [OF g sc ne n _ refl refl] g sc i by simp
qed

section \<open>Call sites and the import of their getter (C3)\<close>




end
